theory Spec2Isabelle
  imports Complex_Main "HOL-Library.Multiset"
begin

section \<open>DocSearcher: the windowed highlight engine of the viewer\<close>

text \<open>
  A shallow embedding of the front-end script (its buffered generation): the word parser,
  the page cache and load deduplicator, the highlight window, the jump handler of the
  result list, the loader and the reset.  Asynchronous functions are split at their
  awaits: a call runs up to its first await, and what follows an await is a continuation.
  A continuation that waits for a page load is stored with the ticket of the page; one
  whose promise is settled is a job of the job queue.  A task of the browser runs its
  handler and then the jobs, first in first out, until the queue is empty.
\<close>

subsection \<open>Strings and the word parser\<close>

text \<open>
  Strings are lists of characters with code units below 256 (Latin-1).  \<open>isSpaceChar\<close> is
  the white space of \<open>trim\<close> and of the class \<open>\\s\<close> in that range; \<open>toLowerChar\<close> is
  \<open>toLowerCase\<close> there.  \<open>splitRuns\<close> is \<open>split(/[,\\s;]+/)\<close>: the pieces between the
  maximal runs of separators, an empty piece before a leading and after a trailing run.
  \<open>parseWordsSpec\<close> is the parser as the specification words it.
\<close>

definition isSpaceChar :: "char \<Rightarrow> bool" where
  "isSpaceChar c = (c \<in> set [CHR 0x09, CHR 0x0A, CHR 0x0B, CHR 0x0C, CHR 0x0D, CHR 0x20, CHR 0xA0])"

definition toLowerChar :: "char \<Rightarrow> char" where
  "toLowerChar c =
     (let n = (of_char c :: nat)
      in if (65 \<le> n \<and> n \<le> 90) \<or> (192 \<le> n \<and> n \<le> 222 \<and> n \<noteq> 215)
         then char_of (n + 32) else c)"

definition toLowerCase :: "string \<Rightarrow> string" where
  "toLowerCase w = map toLowerChar w"

definition trim :: "string \<Rightarrow> string" where
  "trim s = rev (dropWhile isSpaceChar (rev (dropWhile isSpaceChar s)))"

definition isSep :: "char \<Rightarrow> bool" where
  "isSep c = (c = CHR '','' \<or> isSpaceChar c \<or> c = CHR '';'')"

function splitRuns :: "string \<Rightarrow> string list" where
  "splitRuns s =
     (let frag = takeWhile (\<lambda>c. \<not> isSep c) s;
          rest = dropWhile (\<lambda>c. \<not> isSep c) s
      in if rest = [] then [frag] else frag # splitRuns (dropWhile isSep rest))"
  by pat_completeness auto
termination
proof (relation "measure length")
  show "wf (measure length)" by simp
next
  fix s :: string and frag rest
  assume r: "rest = dropWhile (\<lambda>c. \<not> isSep c) s" and ne: "rest \<noteq> []"
  from ne obtain c cs where rc: "rest = c # cs" by (cases rest) auto
  have "dropWhile (\<lambda>c. \<not> isSep c) s = c # cs" using r rc by simp
  then have "isSep c" by (metis hd_dropWhile list.sel(1) list.distinct(1))
  then have "length (dropWhile isSep rest) \<le> length cs"
    using rc by (simp add: length_dropWhile_le)
  moreover have "length rest \<le> length s" using r by (simp add: length_dropWhile_le)
  ultimately show "(dropWhile isSep rest, s) \<in> measure length" using rc by simp
qed

fun indexOf :: "'a list \<Rightarrow> 'a \<Rightarrow> int" where
  "indexOf [] v = - 1"
| "indexOf (x # xs) v =
     (if x = v then 0 else (let i = indexOf xs v in if i < 0 then - 1 else i + 1))"

definition firstIndexOnly :: "'a list \<Rightarrow> 'a list" where
  "firstIndexOnly a = map snd (filter (\<lambda>(i, v). indexOf a v = int i) (enumerate 0 a))"

definition parseWords :: "string \<Rightarrow> string list" where
  "parseWords raw =
     firstIndexOnly (map toLowerCase (filter (\<lambda>w. w \<noteq> []) (splitRuns (trim raw))))"

function fragments :: "string \<Rightarrow> string list" where
  "fragments s =
     (case dropWhile isSep s of
        [] \<Rightarrow> []
      | c # cs \<Rightarrow> (c # takeWhile (\<lambda>x. \<not> isSep x) cs) # fragments (dropWhile (\<lambda>x. \<not> isSep x) cs))"
  by pat_completeness auto
termination
proof (relation "measure length")
  show "wf (measure length)" by simp
next
  fix s :: string and c cs
  assume d: "dropWhile isSep s = c # cs"
  have "length (dropWhile (\<lambda>x. \<not> isSep x) cs) \<le> length cs" by (simp add: length_dropWhile_le)
  moreover have "length (c # cs) \<le> length s" using d length_dropWhile_le[of isSep s] by simp
  ultimately show "(dropWhile (\<lambda>x. \<not> isSep x) cs, s) \<in> measure length" by simp
qed

fun firstOccs :: "'a list \<Rightarrow> 'a list \<Rightarrow> 'a list" where
  "firstOccs seen [] = []"
| "firstOccs seen (x # xs) =
     (if x \<in> set seen then firstOccs seen xs else x # firstOccs (x # seen) xs)"

definition parseWordsSpec :: "string \<Rightarrow> string list" where
  "parseWordsSpec raw = firstOccs [] (map toLowerCase (fragments raw))"

subsection \<open>Data model\<close>

text \<open>
  Page numbers are JavaScript integers, modelled as \<open>int\<close>.  Token coordinates are
  JavaScript numbers; their type is the parameter \<open>'n\<close>, so that the arithmetic of
  \<open>highlightPageMatches\<close> is whatever multiplication and subtraction the number type has.
\<close>

record 'n token =
  tokText :: string
  bbox :: "'n \<times> 'n \<times> 'n \<times> 'n"

text \<open>A \<open>div.hl-box\<close> node: its identity and the four percentages of its style.\<close>

record 'n hlBox =
  boxId :: nat
  boxLeft :: 'n
  boxTop :: 'n
  boxWidth :: 'n
  boxHeight :: 'n

text \<open>The JSON body of \<open>GET /api/doc/{id}/page/{n}\<close>.\<close>

record 'n pageData =
  image_url :: string
  dataText :: string
  dataTokens :: "'n token list"
  dataError :: "string option"

text \<open>
  An entry of \<open>pageCache\<close>.  \<open>overlay\<close> is a reference to the overlay node of the page
  element the loader created, given by that element's identity.
\<close>

record 'n pageRecord =
  tokens :: "'n token list"
  ptext :: string
  overlay :: nat

text \<open>A \<open>div.page\<close> element: its identity and its \<open>data-page\<close>.\<close>

record pageEl =
  elId :: nat
  elPage :: int

record doc =
  doc_id :: string
  pages :: int

record searchResult =
  rpage :: int
  counts :: "(string \<times> nat) list"

datatype errMsg = NetworkError string | ServerError string | FailedToLoadPage int

datatype status =
    StReady
  | StJumping int
  | StCentered int
  | StPageLoadError int errMsg

datatype outcome = LoadOk | LoadErr errMsg

text \<open>
  A continuation: what a later job runs.  The first group are the callers of
  \<open>safeEnsurePage\<close> and what follows them in the click handler:
  \<^item> \<open>KNone\<close>: nobody continues (the prefetch pushes the promise and drops it);
  \<^item> \<open>KActivate p\<close>: the rest of \<open>activatePage(p)\<close>, and the \<open>.then\<close> callback of
    \<open>updateHighlightWindow\<close>, which has the same body;
  \<^item> \<open>KJoin j\<close>: one task of the \<open>Promise.all\<close> of \<open>preloadJumpWindow\<close>;
  \<^item> \<open>KClickLoaded token idx page\<close>: the click handler after its first await;
  \<^item> \<open>KClickPreloaded token idx page\<close>: the click handler after
    \<open>await preloadJumpWindow\<close>;
  \<^item> \<open>KSelectLoaded page preserve skip k\<close>: \<open>selectResultIndex\<close> after its await, then
    its caller \<open>k\<close>;
  \<^item> \<open>KClickSelected page\<close>: the click handler after \<open>await selectResultIndex\<close>.

  The second group are the jobs between the settlement of a load and the caller of
  \<open>safeEnsurePage\<close>; they carry the outcome of the load:
  \<^item> \<open>KFinally p out k\<close>: the rest of \<open>ensurePageLoaded(p)\<close> in the call that created the
    ticket: the \<open>finally\<close> deletes the entry, and the call settles like the load;
  \<^item> \<open>KResolve p out k\<close>: the reaction that settles the promise of a call that returned an
    existing ticket;
  \<^item> \<open>KSafe p out k\<close>: the rest of \<open>safeEnsurePage(p)\<close>: its \<open>catch\<close> when the load
    failed; then its caller \<open>k\<close>;
  \<^item> \<open>KHop k\<close>: a job with no effect of its own after which \<open>k\<close> is queued (an async
    function returns to its awaiting caller; a promise adopts a settled one).
\<close>

datatype kont =
    KNone
  | KActivate int
  | KJoin nat
  | KClickLoaded nat nat int
  | KClickPreloaded nat nat int
  | KSelectLoaded int bool bool kont
  | KClickSelected int
  | KFinally int outcome kont
  | KResolve int outcome kont
  | KSafe int outcome kont
  | KHop kont

text \<open>What awaits the \<open>Promise.all\<close> of \<open>preloadJumpWindow\<close>.\<close>

datatype joinParent = JClick nat nat int

text \<open>
  The anonymous async function of \<open>ensurePageLoaded\<close> has three suspension points: the
  fetch, the decoding of the body (with \<open>res.ok\<close> already known), and the image.  With no
  document open it returns at once: the promise stored is already fulfilled (\<open>Returned\<close>).
\<close>

datatype stage = Fetching | Decoding bool | ImageWait nat | Returned

text \<open>
  An entry of \<open>pageLoadPromises\<close>: the loader's position and the callers awaiting it, in
  the order they attached (the creator first).
\<close>

record ticket =
  stage :: stage
  waiters :: "kont list"

text \<open>
  The value of \<open>entry.counts[w]\<close>: a number of the response, or, for a key the object
  does not have, what the object inherits under that name from \<open>Object.prototype\<close>.
\<close>

datatype countVal = CountNum nat | CountInherited

text \<open>
  The module-level variables, the part of the document they act on, and the requests sent.
  \<open>highlightedPages\<close> is a JavaScript \<open>Set\<close>, kept in insertion order; \<open>overlayBoxes\<close>
  gives the \<open>.hl-box\<close> children of each page element's overlay; \<open>statusLog\<close> is the
  sequence of texts written to the status line; \<open>fetchLog\<close> the page requests issued;
  \<open>scrollLog\<close> the pages scrolled into view; \<open>joins\<close> the pending \<open>Promise.all\<close>
  calls (tasks left, and who awaits); \<open>settleTimers\<close> the pending 800 ms timers;
  \<open>jobs\<close> the queue of promise jobs (microtasks), the next one first.
\<close>

record 'n state =
  currentDoc :: "doc option"
  currentWords :: "string list"
  searchResults :: "searchResult list"
  currentSelectedPage :: "int option"
  pageCache :: "int \<rightharpoonup> 'n pageRecord"
  currentScale :: 'n
  pageLoadPromises :: "int \<rightharpoonup> ticket"
  matchPageSet :: "int set"
  seamlessHighlightActive :: bool
  currentCenterPage :: "int option"
  highlightedPages :: "int list"
  scrollDirection :: int
  programmaticScrollInProgress :: bool
  pageObserver :: "nat list option"
  currentJumpToken :: nat
  pagesDiv :: "pageEl list"
  overlayBoxes :: "nat \<Rightarrow> 'n hlBox list"
  nextNode :: nat
  pageTextValue :: "(string \<times> countVal) list \<times> string"
  activeRow :: "nat option"
  statusLog :: "status list"
  fetchLog :: "(string \<times> int) list"
  scrollLog :: "int list"
  joins :: "nat \<rightharpoonup> nat \<times> joinParent"
  nextJoin :: nat
  settleTimers :: nat
  jobs :: "kont list"

definition HIGHLIGHT_BUFFER_BEFORE :: int where
  "HIGHLIGHT_BUFFER_BEFORE = 2"

definition HIGHLIGHT_BUFFER_AFTER :: int where
  "HIGHLIGHT_BUFFER_AFTER = 2"

definition PREFETCH_EXTRA_AHEAD :: int where
  "PREFETCH_EXTRA_AHEAD = 1"

definition bufferedHighlightMode :: bool where
  "bufferedHighlightMode = True"

text \<open>
  The highlight window around a center page, clipped to the document:
  \<open>Math.max(1, center - HIGHLIGHT_BUFFER_BEFORE)\<close> and
  \<open>Math.min(currentDoc.pages, center + HIGHLIGHT_BUFFER_AFTER)\<close>.
\<close>

definition windowStart :: "int \<Rightarrow> int" where
  "windowStart center = max 1 (center - HIGHLIGHT_BUFFER_BEFORE)"

definition windowEnd :: "doc \<Rightarrow> int \<Rightarrow> int" where
  "windowEnd d center = min (pages d) (center + HIGHLIGHT_BUFFER_AFTER)"

subsection \<open>Status line, document order, highlight boxes\<close>

definition setStatus :: "status \<Rightarrow> 'n state \<Rightarrow> 'n state" where
  "setStatus msg s = s\<lparr>statusLog := statusLog s @ [msg]\<rparr>"

text \<open>\<open>document.querySelector('.page[data-page="p"]')\<close>: the first match in document order.\<close>

definition queryPage :: "int \<Rightarrow> pageEl list \<Rightarrow> pageEl option" where
  "queryPage p els = find (\<lambda>e. elPage e = p) els"

fun insertPageInOrder :: "pageEl \<Rightarrow> pageEl list \<Rightarrow> pageEl list" where
  "insertPageInOrder pageEl [] = [pageEl]"
| "insertPageInOrder pageEl (el # existing) =
     (if elPage pageEl < elPage el then pageEl # el # existing
      else el # insertPageInOrder pageEl existing)"

fun removeFirstNodes :: "nat \<Rightarrow> int \<Rightarrow> pageEl list \<Rightarrow> pageEl list" where
  "removeFirstNodes 0 p els = els"
| "removeFirstNodes (Suc k) p [] = []"
| "removeFirstNodes (Suc k) p (e # els) =
     (if elPage e = p then removeFirstNodes k p els else e # removeFirstNodes (Suc k) p els)"

definition dedupePageDom :: "int \<Rightarrow> pageEl list \<Rightarrow> pageEl list" where
  "dedupePageDom pageNum els =
     (let n = length (filter (\<lambda>e. elPage e = pageNum) els)
      in if n \<le> 1 then els else removeFirstNodes (n - 1) pageNum els)"

definition clearAllHighlights :: "'n state \<Rightarrow> 'n state" where
  "clearAllHighlights s =
     s\<lparr>overlayBoxes := (\<lambda>i. if i \<in> set (map elId (pagesDiv s)) then [] else overlayBoxes s i)\<rparr>"

definition clearHighlightsOnPage :: "int \<Rightarrow> 'n state \<Rightarrow> 'n state" where
  "clearHighlightsOnPage pageNum s =
     (case queryPage pageNum (pagesDiv s) of
        None \<Rightarrow> s
      | Some e \<Rightarrow> s\<lparr>overlayBoxes := (overlayBoxes s)(elId e := [])\<rparr>)"

definition mkBox :: "nat \<Rightarrow> ('n::{times,minus,numeral}) token \<Rightarrow> 'n hlBox" where
  "mkBox i tok =
     (case bbox tok of (x0, y0, x1, y1) \<Rightarrow>
        \<lparr>boxId = i, boxLeft = x0 * 100, boxTop = y0 * 100,
         boxWidth = (x1 - x0) * 100, boxHeight = (y1 - y0) * 100\<rparr>)"

definition highlightPageMatches ::
  "int \<Rightarrow> bool \<Rightarrow> ('n::{times,minus,numeral}) state \<Rightarrow> 'n state" where
  "highlightPageMatches pageNum appending s =
     (case pageCache s pageNum of
        None \<Rightarrow> s
      | Some cache \<Rightarrow>
          if currentWords s = [] then s
          else
            let s1 = (if \<not> appending then clearHighlightsOnPage pageNum s else s);
                hits = filter (\<lambda>tok. toLowerCase (tokText tok) \<in> set (currentWords s)) (tokens cache);
                frag = map (\<lambda>(i, tok). mkBox i tok) (enumerate (nextNode s1) hits)
            in s1\<lparr>overlayBoxes := (overlayBoxes s1)(overlay cache := overlayBoxes s1 (overlay cache) @ frag),
                  nextNode := nextNode s1 + length hits\<rparr>)"

definition addHighlighted :: "int \<Rightarrow> 'n state \<Rightarrow> 'n state" where
  "addHighlighted p s =
     (if p \<in> set (highlightedPages s) then s
      else s\<lparr>highlightedPages := highlightedPages s @ [p]\<rparr>)"

definition deleteHighlighted :: "int \<Rightarrow> 'n state \<Rightarrow> 'n state" where
  "deleteHighlighted p s = s\<lparr>highlightedPages := removeAll p (highlightedPages s)\<rparr>"

definition scrollPageIntoView :: "int \<Rightarrow> 'n state \<Rightarrow> 'n state" where
  "scrollPageIntoView pageNum s =
     (case queryPage pageNum (pagesDiv s) of
        None \<Rightarrow> s
      | Some e \<Rightarrow> s\<lparr>scrollLog := scrollLog s @ [pageNum]\<rparr>)"

text \<open>
  \<open>entry.counts[w] || 0\<close>, where \<open>counts\<close> is a plain object decoded from JSON: its own
  property if it has one, else what \<open>Object.prototype\<close> has under that name, else 0.
\<close>

definition objectPrototypeKeys :: "string list" where
  "objectPrototypeKeys =
     [''constructor'', ''__proto__'', ''hasOwnProperty'', ''isPrototypeOf'',
      ''propertyIsEnumerable'', ''toLocaleString'', ''toString'', ''valueOf'',
      ''__defineGetter__'', ''__defineSetter__'', ''__lookupGetter__'', ''__lookupSetter__'']"

definition wordCount :: "searchResult \<Rightarrow> string \<Rightarrow> countVal" where
  "wordCount r w =
     (case map_of (counts r) w of
        Some c \<Rightarrow> CountNum c
      | None \<Rightarrow> if w \<in> set objectPrototypeKeys then CountInherited else CountNum 0)"

definition showPageText :: "int \<Rightarrow> 'n state \<Rightarrow> 'n state" where
  "showPageText pageNum s =
     (case pageCache s pageNum of
        None \<Rightarrow> s
      | Some cache \<Rightarrow>
          let summary =
                (case find (\<lambda>r. rpage r = pageNum) (searchResults s) of
                   None \<Rightarrow> []
                 | Some entry \<Rightarrow>
                     filter (\<lambda>(w, c). c \<noteq> CountNum 0) (map (\<lambda>w. (w, wordCount entry w)) (currentWords s)))
          in s\<lparr>pageTextValue := (summary, ptext cache)\<rparr>)"

subsection \<open>The load deduplicator\<close>

definition enqueue :: "kont \<Rightarrow> 'n state \<Rightarrow> 'n state" where
  "enqueue k s = s\<lparr>jobs := jobs s @ [k]\<rparr>"

text \<open>
  \<open>ensurePageLoaded p k s\<close> is the call of \<open>ensurePageLoaded(p)\<close> that \<open>safeEnsurePage(p)\<close>
  makes, where the caller of \<open>safeEnsurePage\<close> continues with \<open>k\<close>.
  \<^item> A cache hit returns a fulfilled promise: \<open>safeEnsurePage\<close> resumes one job later and its
    caller one job after that.
  \<^item> A ticket whose load is pending is returned: \<open>k\<close> is queued on it, behind the callers
    already there.  A ticket that is already fulfilled (\<open>Returned\<close>) is adopted two jobs later.
  \<^item> Otherwise a ticket is created.  With a document open the request is sent and \<open>k\<close> is
    its first waiter; with none the loader returns at once and the \<open>finally\<close> runs in the
    next job.
\<close>

definition ensurePageLoaded :: "int \<Rightarrow> kont \<Rightarrow> 'n state \<Rightarrow> 'n state" where
  "ensurePageLoaded pageNum k s =
     (if pageCache s pageNum \<noteq> None then enqueue (KSafe pageNum LoadOk k) s
      else
        (case pageLoadPromises s pageNum of
           Some t \<Rightarrow>
             if stage t = Returned then enqueue (KHop (KResolve pageNum LoadOk k)) s
             else s\<lparr>pageLoadPromises := (pageLoadPromises s)(pageNum \<mapsto> t\<lparr>waiters := waiters t @ [k]\<rparr>)\<rparr>
         | None \<Rightarrow>
             (case currentDoc s of
                None \<Rightarrow>
                  enqueue (KFinally pageNum LoadOk k)
                    (s\<lparr>pageLoadPromises :=
                         (pageLoadPromises s)(pageNum \<mapsto> \<lparr>stage = Returned, waiters = []\<rparr>)\<rparr>)
              | Some d \<Rightarrow>
                  s\<lparr>fetchLog := fetchLog s @ [(doc_id d, pageNum)],
                    pageLoadPromises :=
                      (pageLoadPromises s)(pageNum \<mapsto> \<lparr>stage = Fetching, waiters = [k]\<rparr>)\<rparr>)))"

text \<open>
  \<open>safeEnsurePage\<close> awaits \<open>ensurePageLoaded\<close> inside \<open>try\<close>; its \<open>catch\<close> runs when
  the load has settled, in \<open>safeEnsureSettled\<close>.
\<close>

definition safeEnsurePage :: "int \<Rightarrow> kont \<Rightarrow> 'n state \<Rightarrow> 'n state" where
  "safeEnsurePage pageNum k s = ensurePageLoaded pageNum k s"

definition safeEnsureSettled :: "int \<Rightarrow> outcome \<Rightarrow> 'n state \<Rightarrow> 'n state" where
  "safeEnsureSettled pageNum out s =
     (case out of
        LoadOk \<Rightarrow> s
      | LoadErr e \<Rightarrow> setStatus (StPageLoadError pageNum e) s)"

subsection \<open>The highlight window\<close>

definition activateAfter :: "int \<Rightarrow> ('n::{times,minus,numeral}) state \<Rightarrow> 'n state" where
  "activateAfter p s = addHighlighted p (highlightPageMatches p False s)"

definition activatePage :: "int \<Rightarrow> 'n state \<Rightarrow> 'n state" where
  "activatePage p s =
     (if p \<notin> matchPageSet s then s else safeEnsurePage p (KActivate p) s)"

definition windowStep :: "int \<Rightarrow> ('n::{times,minus,numeral}) state \<Rightarrow> 'n state" where
  "windowStep p s =
     (if p \<in> matchPageSet s \<and> p \<notin> set (highlightedPages s) then
        (if pageCache s p \<noteq> None then addHighlighted p (highlightPageMatches p False s)
         else activatePage p s)
      else if pageCache s p = None \<and> p \<in> matchPageSet s then safeEnsurePage p (KActivate p) s
      else s)"

definition leaveStep :: "int \<Rightarrow> int \<Rightarrow> int \<Rightarrow> 'n state \<Rightarrow> 'n state" where
  "leaveStep wstart wend p s =
     (if p < wstart \<or> wend < p then deleteHighlighted p (clearHighlightsOnPage p s) else s)"

definition prefetchStep :: "int \<Rightarrow> 'n state \<Rightarrow> 'n state" where
  "prefetchStep p s =
     (if p \<in> matchPageSet s \<and> pageCache s p = None then safeEnsurePage p KNone s else s)"

definition aheadPages :: "int \<Rightarrow> int \<Rightarrow> int \<Rightarrow> int \<Rightarrow> int list" where
  "aheadPages dir wstart wend totalPages =
     (if 0 < dir then [wend + 1 .. min totalPages (wend + PREFETCH_EXTRA_AHEAD)]
      else rev [max 1 (wstart - 1) .. wstart - PREFETCH_EXTRA_AHEAD])"

definition updateHighlightWindow :: "('n::{times,minus,numeral}) state \<Rightarrow> 'n state" where
  "updateHighlightWindow s =
     (case currentDoc s of
        None \<Rightarrow> s
      | Some d \<Rightarrow>
          if \<not> bufferedHighlightMode then s
          else
            (case currentCenterPage s of
               None \<Rightarrow> s
             | Some c \<Rightarrow>
                 let wstart = windowStart c;
                     wend = windowEnd d c;
                     s1 = foldl (\<lambda>t p. leaveStep wstart wend p t) s (highlightedPages s);
                     s2 = foldl (\<lambda>t p. windowStep p t) s1 [wstart .. wend]
                 in if scrollDirection s2 \<noteq> 0
                    then foldl (\<lambda>t p. prefetchStep p t) s2
                           (aheadPages (scrollDirection s2) wstart wend (pages d))
                    else s2))"

definition setCenterPage :: "int \<Rightarrow> bool \<Rightarrow> ('n::{times,minus,numeral}) state \<Rightarrow> 'n state" where
  "setCenterPage pageNum fromClick s =
     (let s1 = updateHighlightWindow (s\<lparr>currentCenterPage := Some pageNum\<rparr>)
      in if fromClick
         then s1\<lparr>programmaticScrollInProgress := True, settleTimers := settleTimers s1 + 1\<rparr>
         else s1)"

definition scrollSettleTimer :: "'n state \<Rightarrow> 'n state" where
  "scrollSettleTimer s =
     (if settleTimers s = 0 then s
      else s\<lparr>programmaticScrollInProgress := False, settleTimers := settleTimers s - 1\<rparr>)"

text \<open>An \<open>IntersectionObserverEntry\<close>: the page of its target, and the two fields read.\<close>

record 'r entry =
  targetPage :: int
  isIntersecting :: bool
  intersectionRatio :: 'r

fun bestEntry :: "('r::linorder) entry option \<Rightarrow> 'r entry list \<Rightarrow> 'r entry option" where
  "bestEntry best [] = best"
| "bestEntry best (e # es) =
     (if \<not> isIntersecting e then bestEntry best es
      else
        (case best of
           None \<Rightarrow> bestEntry (Some e) es
         | Some b \<Rightarrow>
             if intersectionRatio b < intersectionRatio e then bestEntry (Some e) es
             else bestEntry best es))"

definition handlePageIntersections ::
  "('r::linorder) entry list \<Rightarrow> ('n::{times,minus,numeral}) state \<Rightarrow> 'n state" where
  "handlePageIntersections entries s =
     (if \<not> bufferedHighlightMode \<or> entries = [] then s
      else if programmaticScrollInProgress s then s
      else
        (case bestEntry None entries of
           None \<Rightarrow> s
         | Some best \<Rightarrow>
             let pageNum = targetPage best
             in if currentCenterPage s \<noteq> Some pageNum then
                  setCenterPage pageNum False
                    (case currentCenterPage s of
                       None \<Rightarrow> s
                     | Some c \<Rightarrow> s\<lparr>scrollDirection := (if c < pageNum then 1 else - 1)\<rparr>)
                else s))"

subsection \<open>Jumps: the click handler of a result row\<close>

definition clickFinish :: "int \<Rightarrow> ('n::{times,minus,numeral}) state \<Rightarrow> 'n state" where
  "clickFinish page s =
     setStatus (StCentered page) (scrollPageIntoView page (setCenterPage page True s))"

definition selectAfterLoad ::
  "int \<Rightarrow> bool \<Rightarrow> bool \<Rightarrow> ('n::{times,minus,numeral}) state \<Rightarrow> 'n state" where
  "selectAfterLoad page preserveHighlights skipScroll s =
     (let s1 = showPageText page s;
          s2 = (if \<not> bufferedHighlightMode then
                  (if seamlessHighlightActive s1 then highlightPageMatches page True s1
                   else if \<not> preserveHighlights
                        then highlightPageMatches page False (clearAllHighlights s1)
                        else s1)
                else s1)
      in if \<not> skipScroll then scrollPageIntoView page s2 else s2)"

text \<open>
  \<open>selectResultIndex idx \<dots> k\<close>, awaited by a caller that continues with \<open>k\<close>.  Out of
  range it returns at once and \<open>k\<close> is the next job of its caller; otherwise it awaits
  \<open>safeEnsurePage\<close> and goes on in \<open>KSelectLoaded\<close>.
\<close>

definition selectResultIndex ::
  "nat \<Rightarrow> bool \<Rightarrow> bool \<Rightarrow> kont \<Rightarrow> 'n state \<Rightarrow> 'n state" where
  "selectResultIndex idx preserveHighlights skipScroll k s =
     (if length (searchResults s) \<le> idx then enqueue k s
      else
        let page = rpage (searchResults s ! idx);
            s1 = s\<lparr>activeRow := Some idx, currentSelectedPage := Some page\<rparr>
        in safeEnsurePage page (KSelectLoaded page preserveHighlights skipScroll k) s1)"

definition clickAfterPreload :: "nat \<Rightarrow> nat \<Rightarrow> int \<Rightarrow> 'n state \<Rightarrow> 'n state" where
  "clickAfterPreload token idx page s =
     (if token \<noteq> currentJumpToken s then s
      else selectResultIndex idx True True (KClickSelected page) s)"

definition preloadTask :: "nat \<Rightarrow> nat \<times> 'n state \<Rightarrow> int \<Rightarrow> nat \<times> 'n state" where
  "preloadTask j acc p =
     (case acc of (n, s) \<Rightarrow>
        if pageCache s p = None then (n + 1, safeEnsurePage p (KJoin j) s) else (n, s))"

definition afterJoin :: "joinParent \<Rightarrow> kont" where
  "afterJoin parent = (case parent of JClick token idx page \<Rightarrow> KClickPreloaded token idx page)"

text \<open>
  \<open>preloadJumpWindow\<close> reads \<open>currentDoc.pages\<close>: with no document it throws before any
  effect, and so does its caller.  Otherwise it starts a task for every page of the window
  that is not cached, \<open>n\<close> tasks.  With no task it returns at once and its caller goes on
  in the next job; otherwise it awaits \<open>Promise.all\<close>, recorded in \<open>joins\<close>.
\<close>

definition preloadJumpWindow :: "int \<Rightarrow> joinParent \<Rightarrow> 'n state \<Rightarrow> 'n state" where
  "preloadJumpWindow centerPage parent s =
     (case currentDoc s of
        None \<Rightarrow> s
      | Some d \<Rightarrow>
          let wstart = windowStart centerPage;
              wend = windowEnd d centerPage;
              j = nextJoin s
          in (case foldl (preloadTask j) (0, s) [wstart .. wend] of
                (n, s1) \<Rightarrow>
                  if n = 0 then enqueue (afterJoin parent) s1
                  else s1\<lparr>joins := (joins s1)(j \<mapsto> (n, parent)), nextJoin := j + 1\<rparr>))"

definition clickAfterLoad :: "nat \<Rightarrow> nat \<Rightarrow> int \<Rightarrow> 'n state \<Rightarrow> 'n state" where
  "clickAfterLoad token idx page s = preloadJumpWindow page (JClick token idx page) s"

definition clickResult :: "nat \<Rightarrow> 'n state \<Rightarrow> 'n state" where
  "clickResult idx s =
     (if length (searchResults s) \<le> idx then s
      else
        let page = rpage (searchResults s ! idx);
            token = currentJumpToken s + 1;
            s1 = setStatus (StJumping page) (s\<lparr>currentJumpToken := token\<rparr>)
        in safeEnsurePage page (KClickLoaded token idx page) s1)"

subsection \<open>Promise jobs\<close>

text \<open>
  A task of \<open>Promise.all\<close> is fulfilled: one task less to wait for; after the last one
  the promise of \<open>Promise.all\<close> is fulfilled, \<open>preloadJumpWindow\<close> returns in the next job,
  and its caller goes on in the job after that.
\<close>

definition joinArrive :: "nat \<Rightarrow> 'n state \<Rightarrow> 'n state" where
  "joinArrive j s =
     (case joins s j of
        None \<Rightarrow> s
      | Some (n, parent) \<Rightarrow>
          if n \<le> 1 then enqueue (KHop (afterJoin parent)) (s\<lparr>joins := (joins s)(j := None)\<rparr>)
          else s\<lparr>joins := (joins s)(j \<mapsto> (n - 1, parent))\<rparr>)"

definition ticketDone :: "int \<Rightarrow> 'n state \<Rightarrow> 'n state" where
  "ticketDone p s = s\<lparr>pageLoadPromises := (pageLoadPromises s)(p := None)\<rparr>"

text \<open>One job: the continuation runs up to its next await, or to its end.\<close>

fun runJob :: "kont \<Rightarrow> ('n::{times,minus,numeral}) state \<Rightarrow> 'n state" where
  "runJob KNone s = s"
| "runJob (KActivate p) s = activateAfter p s"
| "runJob (KJoin j) s = joinArrive j s"
| "runJob (KClickLoaded token idx page) s = clickAfterLoad token idx page s"
| "runJob (KClickPreloaded token idx page) s = clickAfterPreload token idx page s"
| "runJob (KSelectLoaded page preserveHighlights skipScroll k) s =
     enqueue k (selectAfterLoad page preserveHighlights skipScroll s)"
| "runJob (KClickSelected page) s = clickFinish page s"
| "runJob (KFinally p out k) s = enqueue (KSafe p out k) (ticketDone p s)"
| "runJob (KResolve p out k) s = enqueue (KSafe p out k) s"
| "runJob (KSafe p out k) s = enqueue k (safeEnsureSettled p out s)"
| "runJob (KHop k) s = enqueue k s"

text \<open>
  A job queues only jobs of smaller \<open>jobDepth\<close>; this bounds the checkpoint below.
\<close>

fun jobDepth :: "kont \<Rightarrow> nat" where
  "jobDepth KNone = 0"
| "jobDepth (KActivate p) = 0"
| "jobDepth (KJoin j) = 11"
| "jobDepth (KClickLoaded token idx page) = 15"
| "jobDepth (KClickPreloaded token idx page) = 9"
| "jobDepth (KSelectLoaded page preserveHighlights skipScroll k) = Suc (jobDepth k)"
| "jobDepth (KClickSelected page) = 4"
| "jobDepth (KFinally p out k) = jobDepth k + 2"
| "jobDepth (KResolve p out k) = jobDepth k + 2"
| "jobDepth (KSafe p out k) = Suc (jobDepth k)"
| "jobDepth (KHop k) = Suc (jobDepth k)"

text \<open>
  The microtask checkpoint at the end of a task: the jobs run in the order they were
  queued, each one queueing behind the others, until none is left.
\<close>

definition microStep :: "('n::{times,minus,numeral}) state \<Rightarrow> 'n state" where
  "microStep s = (case jobs s of [] \<Rightarrow> s | k # ks \<Rightarrow> runJob k (s\<lparr>jobs := ks\<rparr>))"

function flush :: "('n::{times,minus,numeral}) state \<Rightarrow> 'n state" where
  "flush s = (if jobs s = [] then s else flush (microStep s))"
  by pat_completeness auto

text \<open>
  The ticket settles.  Its reactions are queued in the order they were registered: the
  creator's \<open>await\<close> first, then one for each caller that attached.  (A ticket has its
  creator as first waiter; for an entry without waiters only the entry is deleted.)
\<close>

definition settle :: "int \<Rightarrow> outcome \<Rightarrow> 'n state \<Rightarrow> 'n state" where
  "settle p out s =
     (case pageLoadPromises s p of
        None \<Rightarrow> s
      | Some t \<Rightarrow>
          (case waiters t of
             [] \<Rightarrow> ticketDone p s
           | k # ks \<Rightarrow> s\<lparr>jobs := jobs s @ KFinally p out k # map (KResolve p out) ks\<rparr>))"

subsection \<open>The loader\<close>

definition loaderBuild :: "int \<Rightarrow> 'n pageData \<Rightarrow> 'n state \<Rightarrow> 'n state" where
  "loaderBuild pageNum d s =
     (let pageEl = \<lparr>elId = nextNode s, elPage = pageNum\<rparr>
      in s\<lparr>pagesDiv := dedupePageDom pageNum (insertPageInOrder pageEl (pagesDiv s)),
           overlayBoxes := (overlayBoxes s)(elId pageEl := []),
           nextNode := nextNode s + 1,
           pageCache := (pageCache s)(pageNum \<mapsto>
              \<lparr>tokens = dataTokens d, ptext = dataText d, overlay = elId pageEl\<rparr>),
           pageLoadPromises := (pageLoadPromises s)(pageNum \<mapsto>
              \<lparr>stage = ImageWait (elId pageEl),
               waiters = (case pageLoadPromises s pageNum of None \<Rightarrow> [] | Some t \<Rightarrow> waiters t)\<rparr>)\<rparr>)"

definition loaderFinish :: "int \<Rightarrow> nat \<Rightarrow> ('n::{times,minus,numeral}) state \<Rightarrow> 'n state" where
  "loaderFinish pageNum pageEl s =
     (let s1 = s\<lparr>pageObserver :=
                  Some ((case pageObserver s of None \<Rightarrow> [] | Some obs \<Rightarrow> obs) @ [pageEl])\<rparr>
      in if bufferedHighlightMode \<and> pageNum \<in> matchPageSet s1 then
           (let inWindow =
                  (case currentCenterPage s1 of
                     None \<Rightarrow> False
                   | Some c \<Rightarrow>
                       c - HIGHLIGHT_BUFFER_BEFORE \<le> pageNum \<and> pageNum \<le> c + HIGHLIGHT_BUFFER_AFTER)
            in if inWindow then addHighlighted pageNum (highlightPageMatches pageNum False s1)
               else s1)
         else if seamlessHighlightActive s1 \<and> \<not> bufferedHighlightMode \<and> pageNum \<in> matchPageSet s1
         then highlightPageMatches pageNum True s1
         else s1)"

datatype 'n netEvent =
    FetchResolved bool
  | FetchRejected string
  | JsonResolved "'n pageData"
  | JsonRejected string
  | ImageSettled

definition failureMessage :: "int \<Rightarrow> 'n pageData \<Rightarrow> errMsg" where
  "failureMessage pageNum d =
     (case dataError d of
        None \<Rightarrow> FailedToLoadPage pageNum
      | Some e \<Rightarrow> if e = [] then FailedToLoadPage pageNum else ServerError e)"

definition loaderStep ::
  "int \<Rightarrow> ('n::{times,minus,numeral}) netEvent \<Rightarrow> 'n state \<Rightarrow> 'n state" where
  "loaderStep pageNum ev s =
     (case pageLoadPromises s pageNum of
        None \<Rightarrow> s
      | Some t \<Rightarrow>
          (case (stage t, ev) of
             (Fetching, FetchResolved ok) \<Rightarrow>
               s\<lparr>pageLoadPromises := (pageLoadPromises s)(pageNum \<mapsto> t\<lparr>stage := Decoding ok\<rparr>)\<rparr>
           | (Fetching, FetchRejected e) \<Rightarrow> settle pageNum (LoadErr (NetworkError e)) s
           | (Decoding ok, JsonRejected e) \<Rightarrow> settle pageNum (LoadErr (NetworkError e)) s
           | (Decoding ok, JsonResolved d) \<Rightarrow>
               if \<not> ok then settle pageNum (LoadErr (failureMessage pageNum d)) s
               else loaderBuild pageNum d s
           | (ImageWait pageEl, ImageSettled) \<Rightarrow> settle pageNum LoadOk (loaderFinish pageNum pageEl s)
           | _ \<Rightarrow> s))"

subsection \<open>Reset\<close>

definition disableZoom :: "('n::numeral) state \<Rightarrow> 'n state" where
  "disableZoom s = s\<lparr>currentScale := 1\<rparr>"

definition resetAll :: "('n::numeral) state \<Rightarrow> 'n state" where
  "resetAll s =
     (let s1 = s\<lparr>currentDoc := None, currentWords := [], searchResults := [],
                 currentSelectedPage := None, pageCache := Map.empty, matchPageSet := {},
                 seamlessHighlightActive := False, highlightedPages := [],
                 currentCenterPage := None, activeRow := None, pageTextValue := ([], []),
                 pagesDiv := []\<rparr>;
          s2 = setStatus StReady (disableZoom s1)
      in s2\<lparr>pageObserver := None\<rparr>)"

subsection \<open>Events\<close>

text \<open>
  The tasks the browser runs: a click on a result row, an intersection report, the 800 ms
  timer of a jump, a network or image event of the loader of a page, and the reset at the
  start of an upload.  Each task ends with the microtask checkpoint.
\<close>

datatype ('n, 'r) event =
    Click nat
  | Intersections "'r entry list"
  | SettleTimer
  | Net int "'n netEvent"
  | Reset

definition step ::
  "(('n::{times,minus,numeral}), ('r::linorder)) event \<Rightarrow> 'n state \<Rightarrow> 'n state" where
  "step ev s =
     flush
       (case ev of
          Click idx \<Rightarrow> clickResult idx s
        | Intersections entries \<Rightarrow> handlePageIntersections entries s
        | SettleTimer \<Rightarrow> scrollSettleTimer s
        | Net p e \<Rightarrow> loaderStep p e s
        | Reset \<Rightarrow> resetAll s)"

fun run ::
  "('n::{times,minus,numeral}) state \<Rightarrow> ('n, ('r::linorder)) event list \<Rightarrow> 'n state" where
  "run s [] = s"
| "run s (ev # evs) = run (step ev s) evs"

text \<open>
  The order invariant of the document: of two page elements, the one with the smaller
  page number comes first.
\<close>

definition pagesOrdered :: "pageEl list \<Rightarrow> bool" where
  "pagesOrdered els =
     (\<forall>i j. i < length els \<and> j < length els \<and> elPage (els ! i) < elPage (els ! j) \<longrightarrow> i < j)"

subsection \<open>Observations and scenarios\<close>

text \<open>
  \<open>docView\<close> collects what only the loader and the reset change: the page elements, the
  cache, the open document, the words, the match set and the results.
\<close>

definition docView ::
  "'n state \<Rightarrow> pageEl list \<times> (int \<rightharpoonup> 'n pageRecord) \<times> doc option \<times> string list \<times> int set \<times> searchResult list" where
  "docView s = (pagesDiv s, pageCache s, currentDoc s, currentWords s, matchPageSet s, searchResults s)"

text \<open>
  The placement of a box as the four percentages of its style, and the placement the
  specification asks for a token's bounding box \<open>[x0, y0, x1, y1]\<close>.
\<close>

definition boxGeometry :: "'n hlBox \<Rightarrow> 'n \<times> 'n \<times> 'n \<times> 'n" where
  "boxGeometry b = (boxLeft b, boxTop b, boxWidth b, boxHeight b)"

definition percentBox :: "('n::{times,minus,numeral}) token \<Rightarrow> 'n \<times> 'n \<times> 'n \<times> 'n" where
  "percentBox tok =
     (case bbox tok of (x0, y0, x1, y1) \<Rightarrow> (x0 * 100, y0 * 100, (x1 - x0) * 100, (y1 - y0) * 100))"

definition wordHit :: "string list \<Rightarrow> 'n token \<Rightarrow> bool" where
  "wordHit ws tok = (toLowerCase (tokText tok) \<in> set ws)"

text \<open>
  A viewer with a document of \<open>n\<close> pages open, after a search for \<open>foo\<close> that matched
  the pages \<open>ps\<close>, with no page loaded yet; the body every page request is answered with;
  the three events of a load that succeeds, and the event of a request that fails.
\<close>

definition demoData :: "rat pageData" where
  "demoData =
     \<lparr>image_url = ''/img'', dataText = ''Foo bar'',
      dataTokens = [\<lparr>tokText = ''Foo'', bbox = (1 / 4, 1 / 2, 1 / 2, 3 / 4)\<rparr>,
                    \<lparr>tokText = ''bar'', bbox = (0, 0, 1, 1)\<rparr>],
      dataError = None\<rparr>"

definition viewerState :: "int \<Rightarrow> int list \<Rightarrow> rat state" where
  "viewerState n ps =
     \<lparr>currentDoc = Some \<lparr>doc_id = ''d'', pages = n\<rparr>, currentWords = [''foo''],
      searchResults = map (\<lambda>p. \<lparr>rpage = p, counts = [(''foo'', 1)]\<rparr>) ps,
      currentSelectedPage = None, pageCache = Map.empty, currentScale = 1,
      pageLoadPromises = Map.empty, matchPageSet = set ps, seamlessHighlightActive = True,
      currentCenterPage = None, highlightedPages = [], scrollDirection = 0,
      programmaticScrollInProgress = False, pageObserver = None, currentJumpToken = 0,
      pagesDiv = [], overlayBoxes = (\<lambda>i. []), nextNode = 0, pageTextValue = ([], []),
      activeRow = None, statusLog = [], fetchLog = [], scrollLog = [], joins = Map.empty,
      nextJoin = 0, settleTimers = 0, jobs = []\<rparr>"

definition loads :: "int \<Rightarrow> (rat, nat) event list" where
  "loads p = [Net p (FetchResolved True), Net p (JsonResolved demoData), Net p ImageSettled]"

definition fails :: "int \<Rightarrow> (rat, nat) event list" where
  "fails p = [Net p (FetchRejected ''offline'')]"

text \<open>
  What a scenario shows of the window: the highlighted pages, the pages requested so far,
  and every page element of the document with the placements of its boxes.
\<close>

definition windowView ::
  "rat state \<Rightarrow> int list \<times> int list \<times> (int \<times> (rat \<times> rat \<times> rat \<times> rat) list) list" where
  "windowView s =
     (highlightedPages s, map snd (fetchLog s),
      map (\<lambda>e. (elPage e, map boxGeometry (overlayBoxes s (elId e)))) (pagesDiv s))"

text \<open>
  The scenario of the window: match set \<open>{2, 4, 9}\<close> in ten pages; the center is set to 4
  and the loads of 4 and 2 complete; then, with a scroll direction, the center is set to 9;
  then the load of 9 completes.
\<close>

definition windowAt4 :: "rat state" where
  "windowAt4 = run (setCenterPage 4 False (viewerState 10 [2, 4, 9])) (loads 4 @ loads 2)"

definition windowTo9 :: "int \<Rightarrow> rat state" where
  "windowTo9 dir = setCenterPage 9 False (windowAt4\<lparr>scrollDirection := dir\<rparr>)"

definition windowAt9 :: "int \<Rightarrow> rat state" where
  "windowAt9 dir = run (windowTo9 dir) (loads 9)"

text \<open>
  Two runs of a window with match set \<open>{4}\<close>: the request of page 4 fails; and the center
  moves to 9 while page 4 is loading.
\<close>

definition loadFailsInWindow :: "rat state" where
  "loadFailsInWindow = run (setCenterPage 4 False (viewerState 10 [4])) (fails 4)"

definition windowMovesWhileLoading :: "rat state" where
  "windowMovesWhileLoading =
     run (setCenterPage 9 False (setCenterPage 4 False (viewerState 10 [4]))) (loads 4)"

text \<open>
  Jumps in a document of 100 pages with results on pages 10, 30 and 70.  \<open>firstResultCentered\<close>:
  the first row has been clicked and its jump has completed (pages 8..12 loaded, page 10
  centered).  \<open>secondJumpDone\<close>: the row of page 30 is clicked; the request of page 30
  fails, and fails again when the jump preloads its window 28..32, so that the jump waits
  for a third request of page 30 inside \<open>selectResultIndex\<close>; then the row of page 70 is
  clicked and that jump completes.  \<open>staleJumpResumes\<close>: after that, the third request of
  page 30 succeeds.
\<close>

definition firstResultCentered :: "rat state" where
  "firstResultCentered =
     run (viewerState 100 [10, 30, 70])
       (Click 0 # loads 10 @ loads 8 @ loads 9 @ loads 11 @ loads 12)"

definition secondJumpDone :: "rat state" where
  "secondJumpDone =
     run firstResultCentered
       (Click 1 # fails 30 @ loads 28 @ loads 29 @ fails 30 @ loads 31 @ loads 32 @
        Click 2 # loads 70 @ loads 68 @ loads 69 @ loads 71 @ loads 72)"

definition staleJumpResumes :: "rat state" where
  "staleJumpResumes = run secondJumpDone (loads 30)"

definition jumpView :: "rat state \<Rightarrow> nat \<times> int option \<times> int list \<times> int list \<times> status list" where
  "jumpView s =
     (currentJumpToken s, currentCenterPage s, highlightedPages s, scrollLog s, statusLog s)"

text \<open>
  \<open>loadView\<close> adds what no caller changes once it is resumed: the load errors reported
  to the status line, and, for every page that has a page record, its ticket and the
  requests sent for it.
\<close>

definition isLoadError :: "status \<Rightarrow> bool" where
  "isLoadError m = (case m of StPageLoadError p e \<Rightarrow> True | _ \<Rightarrow> False)"

definition pageRequests :: "int \<Rightarrow> 'n state \<Rightarrow> (string \<times> int) list" where
  "pageRequests p s = filter (\<lambda>r. snd r = p) (fetchLog s)"

definition loadView ::
  "'n state \<Rightarrow>
     (pageEl list \<times> (int \<rightharpoonup> 'n pageRecord) \<times> doc option \<times> string list \<times> int set \<times> searchResult list)
     \<times> status list \<times> (int \<Rightarrow> (ticket option \<times> (string \<times> int) list) option)" where
  "loadView s =
     (docView s, filter isLoadError (statusLog s),
      (\<lambda>p. map_option (\<lambda>r. (pageLoadPromises s p, pageRequests p s)) (pageCache s p)))"

text \<open>
  \<open>callAll p ks\<close>: one call of \<open>safeEnsurePage(p)\<close> for each caller of \<open>ks\<close>, one after
  the other.  \<open>requestsNothing\<close> holds of the callers from the highlight window, which
  call nothing when they are resumed.  \<open>loadFailure\<close> names the loader events that make the
  load fail, and the error thrown: a rejected fetch, a body that cannot be decoded, a
  response whose status is not ok.  \<open>reported p out n\<close>: \<open>n\<close> callers have reported
  the outcome of the load of page \<open>p\<close> to the status line, which they do when it failed.
\<close>

fun callAll :: "int \<Rightarrow> kont list \<Rightarrow> 'n state \<Rightarrow> 'n state" where
  "callAll p [] s = s"
| "callAll p (k # ks) s = callAll p ks (safeEnsurePage p k s)"

definition reported :: "int \<Rightarrow> outcome \<Rightarrow> nat \<Rightarrow> 'n state \<Rightarrow> 'n state" where
  "reported p out n s =
     (case out of
        LoadOk \<Rightarrow> s
      | LoadErr e \<Rightarrow> s\<lparr>statusLog := statusLog s @ replicate n (StPageLoadError p e)\<rparr>)"

text \<open>
  \<open>netTask p ev\<close> is the task of a loader event, \<open>step (Net p ev)\<close>.
  \<open>loadingWith p ks1 ks2\<close>: the callers \<open>ks1\<close> call \<open>safeEnsurePage(p)\<close>, the fetch is
  answered, and the callers \<open>ks2\<close> call while the body is decoded.  \<open>loadSucceeds\<close>:
  the body is decoded, then the image settles.
\<close>

definition netTask ::
  "int \<Rightarrow> ('n::{times,minus,numeral}) netEvent \<Rightarrow> 'n state \<Rightarrow> 'n state" where
  "netTask p ev s = flush (loaderStep p ev s)"

definition loadingWith ::
  "int \<Rightarrow> kont list \<Rightarrow> kont list \<Rightarrow> ('n::{times,minus,numeral}) state \<Rightarrow> 'n state" where
  "loadingWith p ks1 ks2 s = callAll p ks2 (netTask p (FetchResolved True) (callAll p ks1 s))"

definition loadSucceeds ::
  "int \<Rightarrow> ('n::{times,minus,numeral}) pageData \<Rightarrow> 'n state \<Rightarrow> 'n state" where
  "loadSucceeds p dat s = netTask p ImageSettled (netTask p (JsonResolved dat) s)"

text \<open>
  A document of five pages with a result on page 3.  \<open>imageWaiting\<close>: its row is clicked
  and page 3 is decoded, so that its ticket waits for the image.  \<open>lateJump\<close>: the row is
  clicked again and the other four pages load.
\<close>

definition imageWaiting :: "rat state" where
  "imageWaiting =
     run (viewerState 5 [3])
       ([Click 0, Net 3 (FetchResolved True), Net 3 (JsonResolved demoData)] :: (rat, nat) event list)"

definition lateJump :: "rat state" where
  "lateJump = run imageWaiting (Click 0 # loads 1 @ loads 2 @ loads 4 @ loads 5)"



definition loadFailure :: "stage \<Rightarrow> 'n netEvent \<Rightarrow> int \<Rightarrow> errMsg option" where
  "loadFailure st ev pageNum =
     (case (st, ev) of
        (Fetching, FetchRejected e) \<Rightarrow> Some (NetworkError e)
      | (Decoding ok, JsonRejected e) \<Rightarrow> Some (NetworkError e)
      | (Decoding ok, JsonResolved d) \<Rightarrow> if ok then None else Some (failureMessage pageNum d)
      | _ \<Rightarrow> None)"

text \<open>
  \<open>windowDone d c t\<close>: the state is as \<open>updateHighlightWindow\<close> leaves it for the
  document \<open>d\<close> and the center \<open>c\<close>: the highlighted pages are inside the window, every
  matching page of the window is highlighted if it is cached and has a ticket if it is
  not, and, when there is a scroll direction, every matching page ahead that is not cached
  has a ticket.  \<open>quietStep t u\<close>:
  \<open>u\<close> differs from \<open>t\<close> at most in the callers waiting on tickets.
\<close>

definition windowDone :: "doc \<Rightarrow> int \<Rightarrow> 'n state \<Rightarrow> bool" where
  "windowDone d c t =
     (currentDoc t = Some d \<and> currentCenterPage t = Some c \<and>
      (\<forall>p \<in> set (highlightedPages t). windowStart c \<le> p \<and> p \<le> windowEnd d c) \<and>
      (\<forall>p \<in> set [windowStart c .. windowEnd d c]. p \<in> matchPageSet t \<longrightarrow>
         (if pageCache t p = None then pageLoadPromises t p \<noteq> None
          else p \<in> set (highlightedPages t))) \<and>
      (scrollDirection t \<noteq> 0 \<longrightarrow>
         (\<forall>p \<in> set (aheadPages (scrollDirection t) (windowStart c) (windowEnd d c) (pages d)).
            p \<in> matchPageSet t \<and> pageCache t p = None \<longrightarrow> pageLoadPromises t p \<noteq> None)))"

definition quietStep :: "'n state \<Rightarrow> 'n state \<Rightarrow> bool" where
  "quietStep t u =
     (highlightedPages u = highlightedPages t \<and> overlayBoxes u = overlayBoxes t \<and>
      nextNode u = nextNode t \<and> fetchLog u = fetchLog t \<and> pageCache u = pageCache t \<and>
      matchPageSet u = matchPageSet t \<and> currentDoc u = currentDoc t \<and>
      scrollDirection u = scrollDirection t \<and> currentCenterPage u = currentCenterPage t \<and>
      (\<forall>q. pageLoadPromises t q \<noteq> None \<longrightarrow> pageLoadPromises u q \<noteq> None))"

text \<open>
  \<open>grows u v\<close>: from \<open>u\<close> to \<open>v\<close> the cache, the match set, the document, the center and
  the scroll direction are the same, and no page lost its highlight or its ticket.
\<close>

definition grows :: "'n state \<Rightarrow> 'n state \<Rightarrow> bool" where
  "grows u v =
     (pageCache v = pageCache u \<and> matchPageSet v = matchPageSet u \<and>
      currentDoc v = currentDoc u \<and> currentCenterPage v = currentCenterPage u \<and>
      scrollDirection v = scrollDirection u \<and>
      set (highlightedPages u) \<subseteq> set (highlightedPages v) \<and>
      (\<forall>q. pageLoadPromises u q \<noteq> None \<longrightarrow> pageLoadPromises v q \<noteq> None))"

text \<open>
  \<open>queued n s t\<close>: from \<open>s\<close> to \<open>t\<close> the job queue only got jobs appended, each of depth
  below \<open>n\<close>.
\<close>

definition queued :: "nat \<Rightarrow> 'n state \<Rightarrow> 'n state \<Rightarrow> bool" where
  "queued n s t = (\<exists>new. jobs t = jobs s @ new \<and> (\<forall>j \<in> set new. jobDepth j < n))"

section \<open>Properties\<close>

subsection \<open>The word parser\<close>

declare splitRuns.simps [simp del] fragments.simps [simp del]

lemma fragments_Nil: "fragments [] = []"
  by (simp add: fragments.simps)

lemma fragments_sep: "isSep c \<Longrightarrow> fragments (c # cs) = fragments cs"
  by (subst fragments.simps, subst (2) fragments.simps) simp

lemma fragments_nonsep:
  "\<not> isSep c \<Longrightarrow> fragments (c # cs) =
     (c # takeWhile (\<lambda>x. \<not> isSep x) cs) # fragments (dropWhile (\<lambda>x. \<not> isSep x) cs)"
  by (subst fragments.simps) simp

lemma fragments_dropWhile: "fragments (dropWhile isSep s) = fragments s"
  by (induction s) (simp_all add: fragments_sep)

lemma splitRuns_fragments: "filter (\<lambda>w. w \<noteq> []) (splitRuns s) = fragments s"
proof (induction s rule: length_induct)
  case (1 s)
  show ?case
  proof (cases s)
    case Nil
    then show ?thesis by (simp add: splitRuns.simps fragments_Nil)
  next
    case (Cons c cs)
    show ?thesis
    proof (cases "isSep c")
      case True
      have len: "length (dropWhile isSep s) < length s"
        using Cons True length_dropWhile_le[of isSep cs] by simp
      have "splitRuns s = [] # splitRuns (dropWhile isSep s)"
        using Cons True by (subst splitRuns.simps) simp
      then show ?thesis
        using 1 len by (simp add: fragments_dropWhile)
    next
      case False
      let ?rest = "dropWhile (\<lambda>x. \<not> isSep x) cs"
      let ?frag = "c # takeWhile (\<lambda>x. \<not> isSep x) cs"
      show ?thesis
      proof (cases "?rest = []")
        case True
        have fr: "fragments ?rest = []" by (simp only: True fragments_Nil)
        have "splitRuns s = [?frag]"
          using Cons False True by (subst splitRuns.simps) simp
        then show ?thesis using Cons False fr by (simp add: fragments_nonsep)
      next
        case ne: False
        have len: "length (dropWhile isSep ?rest) < length s"
          using Cons length_dropWhile_le[of isSep ?rest] length_dropWhile_le[of "\<lambda>x. \<not> isSep x" cs]
          by simp
        have "splitRuns s = ?frag # splitRuns (dropWhile isSep ?rest)"
          using Cons False ne by (subst splitRuns.simps) (auto simp: Let_def)
        then show ?thesis
          using 1 len Cons False by (simp add: fragments_nonsep fragments_dropWhile)
      qed
    qed
  qed
qed

lemma fragments_all_sep: "list_all isSep t \<Longrightarrow> fragments t = []"
  by (induction t) (simp_all add: fragments_Nil fragments_sep)

lemma fragments_append_seps: "list_all isSep t \<Longrightarrow> fragments (s @ t) = fragments s"
proof (induction s rule: length_induct)
  case (1 s)
  show ?case
  proof (cases s)
    case Nil
    then show ?thesis using 1 by (simp add: fragments_all_sep fragments_Nil)
  next
    case (Cons c cs)
    show ?thesis
    proof (cases "isSep c")
      case True
      then show ?thesis using 1 Cons by (simp add: fragments_sep)
    next
      case False
      let ?P = "\<lambda>x. \<not> isSep x"
      show ?thesis
      proof (cases "list_all ?P cs")
        case True
        have t: "takeWhile ?P t = []" "dropWhile ?P t = t"
          using 1(2) by (cases t; simp)+
        have a: "takeWhile ?P (cs @ t) = cs" "dropWhile ?P (cs @ t) = t"
          using True t by (simp_all add: list_all_iff takeWhile_append2 dropWhile_append2)
        have b: "takeWhile ?P cs = cs" "dropWhile ?P cs = []"
          using True by (simp_all add: list_all_iff)
        have fr: "fragments (dropWhile ?P cs) = []" by (simp only: b fragments_Nil)
        have "fragments (s @ t) = [c # cs]"
          using Cons False 1(2) by (simp add: fragments_nonsep a fragments_all_sep)
        moreover have "fragments s = [c # cs]"
          using Cons False by (simp add: fragments_nonsep fr b(1))
        ultimately show ?thesis by simp
      next
        case ex: False
        then obtain x where x: "x \<in> set cs" "\<not> ?P x" by (auto simp: list_all_iff)
        have a: "takeWhile ?P (cs @ t) = takeWhile ?P cs"
                "dropWhile ?P (cs @ t) = dropWhile ?P cs @ t"
          using x by (simp_all add: takeWhile_append1 dropWhile_append1)
        have "length (dropWhile ?P cs) < length s"
          using Cons length_dropWhile_le[of ?P cs] by simp
        then show ?thesis using 1 Cons False a by (simp add: fragments_nonsep)
      qed
    qed
  qed
qed

lemma isSpace_isSep: "isSpaceChar c \<Longrightarrow> isSep c"
  by (simp add: isSep_def)

lemma fragments_dropSpace: "fragments (dropWhile isSpaceChar s) = fragments s"
  by (induction s) (simp_all add: fragments_sep isSpace_isSep)

lemma fragments_trim: "fragments (trim s) = fragments s"
proof -
  let ?u = "dropWhile isSpaceChar s"
  have split: "?u = rev (dropWhile isSpaceChar (rev ?u)) @ rev (takeWhile isSpaceChar (rev ?u))"
    by (metis rev_append rev_rev_ident takeWhile_dropWhile_id)
  have "list_all isSep (rev (takeWhile isSpaceChar (rev ?u)))"
    by (auto simp: list_all_iff dest: set_takeWhileD intro: isSpace_isSep)
  then have "fragments (rev (dropWhile isSpaceChar (rev ?u))) = fragments ?u"
    using fragments_append_seps split by metis
  then show ?thesis by (simp add: trim_def fragments_dropSpace)
qed

lemma indexOf_ge: "- 1 \<le> indexOf xs v"
  by (induction xs) (auto simp: Let_def)

lemma indexOf_neg: "indexOf xs v < 0 \<longleftrightarrow> v \<notin> set xs"
  using indexOf_ge[of _ v] by (induction xs) (auto simp: Let_def)

lemma indexOf_append_hit:
  "indexOf (ys @ x # xs) x = int (length ys) \<longleftrightarrow> x \<notin> set ys"
proof (induction ys)
  case Nil
  then show ?case by simp
next
  case (Cons y ys)
  have nn: "\<not> indexOf (ys @ x # xs) x < 0" by (simp add: indexOf_neg)
  show ?case using Cons nn by (auto simp: Let_def)
qed

lemma firstOccs_set: "set a = set b \<Longrightarrow> firstOccs a xs = firstOccs b xs"
proof (induction xs arbitrary: a b)
  case Nil
  then show ?case by simp
next
  case (Cons x xs)
  have "firstOccs (x # a) xs = firstOccs (x # b) xs"
    by (rule Cons.IH) (simp add: Cons.prems)
  moreover have "firstOccs a xs = firstOccs b xs" by (rule Cons.IH) (rule Cons.prems)
  ultimately show ?case using Cons.prems by simp
qed

lemma firstIndex_gen:
  "map snd (filter (\<lambda>(i, v). indexOf (ys @ xs) v = int i) (enumerate (length ys) xs))
     = firstOccs ys xs"
proof (induction xs arbitrary: ys)
  case Nil
  then show ?case by simp
next
  case (Cons x xs)
  have ih: "map snd (filter (\<lambda>(i, v). indexOf (ys @ x # xs) v = int i) (enumerate (Suc (length ys)) xs))
              = firstOccs (ys @ [x]) xs"
    using Cons.IH[of "ys @ [x]"] by simp
  have s1: "firstOccs (ys @ [x]) xs = firstOccs (x # ys) xs"
    by (rule firstOccs_set) auto
  have s2: "x \<in> set ys \<Longrightarrow> firstOccs (ys @ [x]) xs = firstOccs ys xs"
    by (rule firstOccs_set) auto
  show ?case
    using ih s1 s2 by (simp add: indexOf_append_hit)
qed

lemma firstIndexOnly_firstOccs: "firstIndexOnly a = firstOccs [] a"
  using firstIndex_gen[of "[]" a] by (simp add: firstIndexOnly_def)

subsection \<open>The job queue\<close>

lemma queued_same: "jobs t = jobs s \<Longrightarrow> queued n s t"
  by (simp add: queued_def)

lemma queued_refl [simp]: "queued n s s"
  by (simp add: queued_def)

lemma queued_trans: "queued n s t \<Longrightarrow> queued n t u \<Longrightarrow> queued n s u"
  by (auto simp: queued_def)

lemma queued_mono: "queued n s t \<Longrightarrow> n \<le> n' \<Longrightarrow> queued n' s t"
  by (fastforce simp: queued_def)

lemma queued_after: "jobs t = jobs s \<Longrightarrow> queued n t u \<Longrightarrow> queued n s u"
  by (simp add: queued_def)

lemma queued_before: "queued n s t \<Longrightarrow> jobs u = jobs t \<Longrightarrow> queued n s u"
  by (simp add: queued_def)

lemma queued_enqueue: "jobDepth k < n \<Longrightarrow> queued n s (enqueue k s)"
  by (simp add: queued_def enqueue_def)

lemma queued_fold:
  "(\<And>t p. queued n t (g t p)) \<Longrightarrow> queued n s (foldl g s ps)"
proof (induction ps arbitrary: s)
  case Nil
  then show ?case by simp
next
  case (Cons p ps)
  then show ?case using queued_trans by fastforce
qed

lemma jobs_simple [simp]:
  "jobs (setStatus m s) = jobs s"
  "jobs (clearAllHighlights s) = jobs s"
  "jobs (clearHighlightsOnPage p s) = jobs s"
  "jobs (addHighlighted p s) = jobs s"
  "jobs (deleteHighlighted p s) = jobs s"
  "jobs (scrollPageIntoView p s) = jobs s"
  "jobs (showPageText p s) = jobs s"
  "jobs (ticketDone p s) = jobs s"
  "jobs (safeEnsureSettled p out s) = jobs s"
  by (simp_all add: setStatus_def clearAllHighlights_def clearHighlightsOnPage_def
      addHighlighted_def deleteHighlighted_def scrollPageIntoView_def showPageText_def
      ticketDone_def safeEnsureSettled_def Let_def split: option.splits outcome.splits)

lemma jobs_highlightPageMatches [simp]: "jobs (highlightPageMatches p a s) = jobs s"
  by (simp add: highlightPageMatches_def Let_def split: option.splits)

lemma jobs_activateAfter [simp]: "jobs (activateAfter p s) = jobs s"
  by (simp add: activateAfter_def)

lemma jobs_selectAfterLoad [simp]: "jobs (selectAfterLoad p a b s) = jobs s"
  by (simp add: selectAfterLoad_def Let_def)

lemma jobs_leaveStep [simp]: "jobs (leaveStep a b p s) = jobs s"
  by (simp add: leaveStep_def)

lemma jobs_leave_fold [simp]: "jobs (foldl (\<lambda>t p. leaveStep a b p t) s ps) = jobs s"
  by (induction ps arbitrary: s) simp_all

lemma queued_ensurePageLoaded: "queued (jobDepth k + 4) s (ensurePageLoaded p k s)"
  by (auto simp: ensurePageLoaded_def queued_def enqueue_def split: option.splits)

lemma queued_safeEnsurePage: "queued (jobDepth k + 4) s (safeEnsurePage p k s)"
  by (simp add: safeEnsurePage_def queued_ensurePageLoaded)

lemma queued_windowStep: "queued 4 s (windowStep p s)"
  using queued_safeEnsurePage[of "KActivate p" s p]
  by (auto simp: windowStep_def activatePage_def intro: queued_same)

lemma queued_prefetchStep: "queued 4 s (prefetchStep p s)"
  using queued_safeEnsurePage[of KNone s p] by (simp add: prefetchStep_def)

lemma queued_updateHighlightWindow: "queued 4 s (updateHighlightWindow s)"
proof (cases "currentDoc s")
  case None
  then show ?thesis by (simp add: updateHighlightWindow_def)
next
  case (Some d)
  show ?thesis
  proof (cases "currentCenterPage s")
    case None
    then show ?thesis using Some by (simp add: updateHighlightWindow_def)
  next
    case (Some c)
    let ?a = "windowStart c" and ?b = "windowEnd d c"
    define s1 where "s1 = foldl (\<lambda>t p. leaveStep ?a ?b p t) s (highlightedPages s)"
    define s2 where "s2 = foldl (\<lambda>t p. windowStep p t) s1 [?a .. ?b]"
    define s3 where "s3 = foldl (\<lambda>t p. prefetchStep p t) s2 (aheadPages (scrollDirection s2) ?a ?b (pages d))"
    have q1: "queued 4 s s1" unfolding s1_def by (rule queued_same) simp
    have q2: "queued 4 s1 s2" unfolding s2_def by (rule queued_fold) (rule queued_windowStep)
    have q3: "queued 4 s2 s3" unfolding s3_def by (rule queued_fold) (rule queued_prefetchStep)
    have "updateHighlightWindow s = (if scrollDirection s2 \<noteq> 0 then s3 else s2)"
      using Some \<open>currentDoc s = Some d\<close>
      by (simp add: updateHighlightWindow_def bufferedHighlightMode_def Let_def s1_def s2_def s3_def)
    then show ?thesis using q1 q2 q3 queued_trans by (metis (full_types))
  qed
qed

lemma queued_setCenterPage: "queued 4 s (setCenterPage p fc s)"
proof -
  have "queued 4 (s\<lparr>currentCenterPage := Some p\<rparr>) (updateHighlightWindow (s\<lparr>currentCenterPage := Some p\<rparr>))"
    by (rule queued_updateHighlightWindow)
  then have "queued 4 s (updateHighlightWindow (s\<lparr>currentCenterPage := Some p\<rparr>))"
    by (simp add: queued_def)
  then show ?thesis by (simp add: setCenterPage_def Let_def queued_def)
qed

lemma queued_clickFinish: "queued 4 s (clickFinish p s)"
  using queued_setCenterPage[of s p True] by (simp add: clickFinish_def queued_def)

lemma queued_selectResultIndex: "queued (jobDepth k + 5) s (selectResultIndex i a b k s)"
proof (cases "length (searchResults s) \<le> i")
  case True
  then show ?thesis by (simp add: selectResultIndex_def queued_enqueue)
next
  case False
  let ?p = "rpage (searchResults s ! i)"
  let ?s1 = "s\<lparr>activeRow := Some i, currentSelectedPage := Some ?p\<rparr>"
  have "queued (jobDepth (KSelectLoaded ?p a b k) + 4) ?s1 (safeEnsurePage ?p (KSelectLoaded ?p a b k) ?s1)"
    by (rule queued_safeEnsurePage)
  then show ?thesis using False by (simp add: selectResultIndex_def Let_def queued_def add.commute)
qed

lemma queued_clickAfterPreload: "queued 9 s (clickAfterPreload tok i p s)"
  using queued_selectResultIndex[of "KClickSelected p" s i True True]
  by (simp add: clickAfterPreload_def)

lemma queued_preloadFold:
  "queued 15 (snd acc) (snd (foldl (preloadTask j) acc ps))"
proof (induction ps arbitrary: acc)
  case Nil
  then show ?case by simp
next
  case (Cons p ps)
  have "queued 15 (snd acc) (snd (preloadTask j acc p))"
    using queued_safeEnsurePage[of "KJoin j" "snd acc" p]
    by (cases acc) (simp add: preloadTask_def)
  then show ?case using Cons[of "preloadTask j acc p"] queued_trans by fastforce
qed

lemma queued_preloadJumpWindow: "queued 15 s (preloadJumpWindow c parent s)"
proof (cases "currentDoc s")
  case None
  then show ?thesis by (simp add: preloadJumpWindow_def)
next
  case (Some d)
  obtain n s1 where f: "foldl (preloadTask (nextJoin s)) (0, s) [windowStart c .. windowEnd d c] = (n, s1)"
    by (cases "foldl (preloadTask (nextJoin s)) (0, s) [windowStart c .. windowEnd d c]") auto
  have q: "queued 15 s s1"
    using queued_preloadFold[of "(0, s)" "nextJoin s" "[windowStart c .. windowEnd d c]"] f by simp
  have "queued 15 s1 (enqueue (afterJoin parent) s1)"
    by (rule queued_enqueue) (simp add: afterJoin_def split: joinParent.splits)
  then have "queued 15 s (enqueue (afterJoin parent) s1)" using q queued_trans by blast
  moreover have "queued 15 s (s1\<lparr>joins := (joins s1)(nextJoin s \<mapsto> (n, parent)), nextJoin := nextJoin s + 1\<rparr>)"
    using q by (simp add: queued_def)
  ultimately show ?thesis using Some f by (simp add: preloadJumpWindow_def Let_def)
qed

lemma queued_joinArrive: "queued 11 s (joinArrive j s)"
  by (auto simp: joinArrive_def queued_def enqueue_def afterJoin_def
      split: option.splits joinParent.splits)

lemma queued_runJob: "queued (jobDepth k) s (runJob k s)"
proof (cases k)
  case (KClickLoaded tok i p)
  then show ?thesis using queued_preloadJumpWindow by (simp add: clickAfterLoad_def)
next
  case (KClickPreloaded tok i p)
  then show ?thesis using queued_clickAfterPreload by simp
next
  case (KClickSelected p)
  then show ?thesis using queued_clickFinish by simp
next
  case (KJoin j)
  then show ?thesis using queued_joinArrive by simp
qed (simp_all add: queued_def enqueue_def)

lemma microStep_decreases:
  assumes "jobs s \<noteq> []"
  shows "(mset (map jobDepth (jobs (microStep s))), mset (map jobDepth (jobs s))) \<in> mult less_than"
proof -
  obtain k ks where ks: "jobs s = k # ks" using assms by (cases "jobs s") auto
  have "queued (jobDepth k) (s\<lparr>jobs := ks\<rparr>) (runJob k (s\<lparr>jobs := ks\<rparr>))"
    by (rule queued_runJob)
  then obtain new where new: "jobs (runJob k (s\<lparr>jobs := ks\<rparr>)) = ks @ new"
    "\<forall>j \<in> set new. jobDepth j < jobDepth k"
    by (auto simp: queued_def)
  have m: "microStep s = runJob k (s\<lparr>jobs := ks\<rparr>)" using ks by (simp add: microStep_def)
  have "(mset (map jobDepth ks) + mset (map jobDepth new), mset (map jobDepth ks) + {#jobDepth k#})
          \<in> mult less_than"
    by (rule one_step_implies_mult) (use new(2) in auto)
  then show ?thesis by (simp add: m new(1) ks)
qed

termination flush
proof (relation "inv_image (mult less_than) (\<lambda>s. mset (map jobDepth (jobs s)))")
  show "wf (inv_image (mult less_than) (\<lambda>s. mset (map jobDepth (jobs s))))"
    by (intro wf_inv_image wf_mult wf_less_than)
next
  fix s :: "'a state"
  assume "jobs s \<noteq> []"
  then show "(microStep s, s) \<in> inv_image (mult less_than) (\<lambda>s. mset (map jobDepth (jobs s)))"
    using microStep_decreases[of s] by simp
qed

declare flush.simps [simp del]

lemma flush_Nil: "jobs s = [] \<Longrightarrow> flush s = s"
  by (subst flush.simps) simp

lemma flush_step: "jobs s \<noteq> [] \<Longrightarrow> flush s = flush (microStep s)"
  by (subst flush.simps) simp

lemma flush_invariant:
  assumes "\<And>t. P t \<Longrightarrow> jobs t \<noteq> [] \<Longrightarrow> P (microStep t)" and "P s"
  shows "P (flush s)"
  using assms(2)
proof (induction s rule: flush.induct)
  case (1 s)
  show ?case
  proof (cases "jobs s = []")
    case True
    then show ?thesis using 1(2) by (simp add: flush_Nil)
  next
    case False
    then show ?thesis using 1 assms(1) by (simp add: flush_step)
  qed
qed

lemma jobs_flush: "jobs (flush s) = []"
proof (induction s rule: flush.induct)
  case (1 s)
  then show ?case by (cases "jobs s = []") (simp_all add: flush_Nil flush_step)
qed

lemma microStep_Cons: "jobs s = k # ks \<Longrightarrow> microStep s = runJob k (s\<lparr>jobs := ks\<rparr>)"
  by (simp add: microStep_def)

lemma flush_Cons: "jobs s = k # ks \<Longrightarrow> flush s = flush (runJob k (s\<lparr>jobs := ks\<rparr>))"
  by (simp add: flush_step microStep_Cons)

subsection \<open>What callers and jobs leave alone\<close>

lemma foldl_view:
  "(\<And>t p. loadView (g t p) = loadView t) \<Longrightarrow> loadView (foldl g s ps) = loadView s"
  by (induction ps arbitrary: s) simp_all

lemma lview_updates [simp]:
  "loadView (s\<lparr>currentSelectedPage := x1\<rparr>) = loadView s"
  "loadView (s\<lparr>currentScale := x2\<rparr>) = loadView s"
  "loadView (s\<lparr>seamlessHighlightActive := x4\<rparr>) = loadView s"
  "loadView (s\<lparr>currentCenterPage := x5\<rparr>) = loadView s"
  "loadView (s\<lparr>highlightedPages := x6\<rparr>) = loadView s"
  "loadView (s\<lparr>scrollDirection := x7\<rparr>) = loadView s"
  "loadView (s\<lparr>programmaticScrollInProgress := x8\<rparr>) = loadView s"
  "loadView (s\<lparr>pageObserver := x9\<rparr>) = loadView s"
  "loadView (s\<lparr>currentJumpToken := y1\<rparr>) = loadView s"
  "loadView (s\<lparr>overlayBoxes := y2\<rparr>) = loadView s"
  "loadView (s\<lparr>nextNode := y3\<rparr>) = loadView s"
  "loadView (s\<lparr>pageTextValue := y4\<rparr>) = loadView s"
  "loadView (s\<lparr>activeRow := y5\<rparr>) = loadView s"
  "loadView (s\<lparr>scrollLog := y8\<rparr>) = loadView s"
  "loadView (s\<lparr>joins := y9\<rparr>) = loadView s"
  "loadView (s\<lparr>nextJoin := z1\<rparr>) = loadView s"
  "loadView (s\<lparr>settleTimers := z2\<rparr>) = loadView s"
  "loadView (s\<lparr>jobs := z3\<rparr>) = loadView s"
  by (simp_all add: loadView_def docView_def pageRequests_def)

lemma lview_setStatus [simp]: "\<not> isLoadError m \<Longrightarrow> loadView (setStatus m s) = loadView s"
  by (simp add: loadView_def docView_def pageRequests_def setStatus_def)

lemma lview_clearAllHighlights [simp]: "loadView (clearAllHighlights s) = loadView s"
  by (simp add: loadView_def docView_def pageRequests_def clearAllHighlights_def)

lemma lview_clearHighlightsOnPage [simp]: "loadView (clearHighlightsOnPage p s) = loadView s"
  by (simp add: loadView_def docView_def pageRequests_def clearHighlightsOnPage_def split: option.splits)

lemma lview_highlightPageMatches [simp]: "loadView (highlightPageMatches p a s) = loadView s"
  by (simp add: highlightPageMatches_def Let_def split: option.splits)

lemma lview_addHighlighted [simp]: "loadView (addHighlighted p s) = loadView s"
  by (simp add: loadView_def docView_def pageRequests_def addHighlighted_def)

lemma lview_deleteHighlighted [simp]: "loadView (deleteHighlighted p s) = loadView s"
  by (simp add: loadView_def docView_def pageRequests_def deleteHighlighted_def)

lemma lview_scrollPageIntoView [simp]: "loadView (scrollPageIntoView p s) = loadView s"
  by (simp add: loadView_def docView_def pageRequests_def scrollPageIntoView_def split: option.splits)

lemma lview_showPageText [simp]: "loadView (showPageText p s) = loadView s"
  by (simp add: loadView_def docView_def pageRequests_def showPageText_def Let_def split: option.splits)

lemma lview_enqueue [simp]: "loadView (enqueue k s) = loadView s"
  by (simp add: enqueue_def)

lemma lview_ensurePageLoaded [simp]: "loadView (ensurePageLoaded p k s) = loadView s"
  by (auto simp: loadView_def docView_def pageRequests_def ensurePageLoaded_def enqueue_def fun_eq_iff
      split: option.splits if_splits)

lemma lview_safeEnsurePage [simp]: "loadView (safeEnsurePage p k s) = loadView s"
  by (simp add: safeEnsurePage_def)

lemma lview_activateAfter [simp]: "loadView (activateAfter p s) = loadView s"
  by (simp add: activateAfter_def)

lemma lview_activatePage [simp]: "loadView (activatePage p s) = loadView s"
  by (simp add: activatePage_def)

lemma lview_windowStep [simp]: "loadView (windowStep p s) = loadView s"
  by (simp add: windowStep_def)

lemma lview_leaveStep [simp]: "loadView (leaveStep a b p s) = loadView s"
  by (simp add: leaveStep_def)

lemma lview_prefetchStep [simp]: "loadView (prefetchStep p s) = loadView s"
  by (simp add: prefetchStep_def)

lemma lview_updateHighlightWindow [simp]: "loadView (updateHighlightWindow s) = loadView s"
  by (simp add: updateHighlightWindow_def Let_def foldl_view split: option.splits)

lemma lview_setCenterPage [simp]: "loadView (setCenterPage p fc s) = loadView s"
  by (simp add: setCenterPage_def Let_def)

lemma lview_scrollSettleTimer [simp]: "loadView (scrollSettleTimer s) = loadView s"
  by (simp add: scrollSettleTimer_def)

lemma lview_handlePageIntersections [simp]: "loadView (handlePageIntersections es s) = loadView s"
  by (simp add: handlePageIntersections_def Let_def split: option.splits)

lemma lview_clickFinish [simp]: "loadView (clickFinish p s) = loadView s"
  by (simp add: clickFinish_def isLoadError_def)

lemma lview_selectAfterLoad [simp]: "loadView (selectAfterLoad p a b s) = loadView s"
  by (simp add: selectAfterLoad_def Let_def)

lemma lview_selectResultIndex [simp]: "loadView (selectResultIndex i a b k s) = loadView s"
  by (simp add: selectResultIndex_def Let_def)

lemma lview_clickAfterPreload [simp]: "loadView (clickAfterPreload tok i p s) = loadView s"
  by (simp add: clickAfterPreload_def)

lemma lview_preloadTask: "loadView (snd (preloadTask j acc p)) = loadView (snd acc)"
  by (simp add: preloadTask_def split: prod.splits)

lemma lview_preloadFold: "loadView (snd (foldl (preloadTask j) acc ps)) = loadView (snd acc)"
  by (induction ps arbitrary: acc) (simp_all add: lview_preloadTask)

lemma lview_preloadFoldD: "foldl (preloadTask j) acc ps = (n, t) \<Longrightarrow> loadView t = loadView (snd acc)"
  using lview_preloadFold[of j acc ps] by simp

lemma lview_preloadJumpWindow [simp]: "loadView (preloadJumpWindow c parent s) = loadView s"
  by (auto simp: preloadJumpWindow_def Let_def split: option.splits prod.splits
      dest!: lview_preloadFoldD)

lemma lview_clickAfterLoad [simp]: "loadView (clickAfterLoad tok i p s) = loadView s"
  by (simp add: clickAfterLoad_def)

lemma lview_joinArrive [simp]: "loadView (joinArrive j s) = loadView s"
  by (simp add: joinArrive_def split: option.splits prod.splits)

lemma lview_clickResult [simp]: "loadView (clickResult i s) = loadView s"
  by (simp add: clickResult_def Let_def isLoadError_def)

lemma lview_loaderFinish [simp]: "loadView (loaderFinish p e s) = loadView s"
  by (simp add: loaderFinish_def Let_def split: option.splits)

lemma lview_safeEnsureSettled_ok [simp]: "loadView (safeEnsureSettled p LoadOk s) = loadView s"
  by (simp add: safeEnsureSettled_def)

text \<open>
  Every job but the two that settle a failed load or delete a ticket leaves \<open>loadView\<close>
  alone.
\<close>

lemma lview_runJob:
  assumes "\<And>p out k'. k \<noteq> KFinally p out k'" and "\<And>p e k'. k \<noteq> KSafe p (LoadErr e) k'"
  shows "loadView (runJob k s) = loadView s"
proof (cases k)
  case (KSafe p out k')
  then have "out = LoadOk" using assms(2) by (cases out) auto
  then show ?thesis using KSafe by simp
qed (use assms(1) in simp_all)

lemma docView_of_loadView: "loadView t = loadView s \<Longrightarrow> docView t = docView s"
  by (simp add: loadView_def)

lemma view_updates [simp]:
  "docView (s\<lparr>jobs := x\<rparr>) = docView s"
  "docView (s\<lparr>statusLog := y\<rparr>) = docView s"
  "docView (s\<lparr>pageLoadPromises := z\<rparr>) = docView s"
  by (simp_all add: docView_def)

lemma view_loaderFinish [simp]: "docView (loaderFinish p e s) = docView s"
  by (rule docView_of_loadView) simp

lemma view_safeEnsureSettled [simp]: "docView (safeEnsureSettled p out s) = docView s"
  by (simp add: safeEnsureSettled_def setStatus_def docView_def split: outcome.splits)

lemma view_ticketDone [simp]: "docView (ticketDone p s) = docView s"
  by (simp add: docView_def ticketDone_def)

lemma view_enqueue [simp]: "docView (enqueue k s) = docView s"
  by (simp add: enqueue_def)

lemma view_runJob [simp]: "docView (runJob k s) = docView s"
proof (cases "(\<exists>p out k'. k = KFinally p out k') \<or> (\<exists>p e k'. k = KSafe p (LoadErr e) k')")
  case True
  then show ?thesis by auto
next
  case False
  then have "loadView (runJob k s) = loadView s" by (intro lview_runJob) auto
  then show ?thesis by (rule docView_of_loadView)
qed

lemma view_microStep [simp]: "docView (microStep s) = docView s"
  by (simp add: microStep_def split: list.splits)

lemma view_flush [simp]: "docView (flush s) = docView s"
  by (rule flush_invariant[where P = "\<lambda>t. docView t = docView s"]) simp_all

lemma view_settle [simp]: "docView (settle p out s) = docView s"
  by (simp add: settle_def split: option.splits list.splits)

lemma view_setCenterPage [simp]: "docView (setCenterPage p fc s) = docView s"
  by (rule docView_of_loadView) simp

lemma view_scrollSettleTimer [simp]: "docView (scrollSettleTimer s) = docView s"
  by (rule docView_of_loadView) simp

lemma view_handlePageIntersections [simp]: "docView (handlePageIntersections es s) = docView s"
  by (rule docView_of_loadView) simp

lemma view_clickResult [simp]: "docView (clickResult i s) = docView s"
  by (rule docView_of_loadView) simp

subsection \<open>Document order\<close>

lemma pagesOrdered_sorted: "pagesOrdered els \<longleftrightarrow> sorted (map elPage els)"
proof
  assume o: "pagesOrdered els"
  show "sorted (map elPage els)"
    unfolding sorted_iff_nth_mono
  proof (intro allI impI)
    fix i j assume ij: "i \<le> j" "j < length (map elPage els)"
    show "map elPage els ! i \<le> map elPage els ! j"
    proof (rule ccontr)
      assume "\<not> map elPage els ! i \<le> map elPage els ! j"
      then have "elPage (els ! j) < elPage (els ! i)" using ij by simp
      then have "j < i" using o ij unfolding pagesOrdered_def by simp
      then show False using ij by simp
    qed
  qed
next
  assume s: "sorted (map elPage els)"
  show "pagesOrdered els"
    unfolding pagesOrdered_def
  proof (intro allI impI)
    fix i j
    assume a: "i < length els \<and> j < length els \<and> elPage (els ! i) < elPage (els ! j)"
    show "i < j"
    proof (rule ccontr)
      assume "\<not> i < j"
      then have "j \<le> i" by simp
      then have "map elPage els ! j \<le> map elPage els ! i"
        using s a by (simp add: sorted_iff_nth_mono)
      then show False using a by simp
    qed
  qed
qed

lemma set_insertPageInOrder: "set (insertPageInOrder e els) = insert e (set els)"
  by (induction els) auto

lemma sorted_insertPageInOrder:
  "sorted (map elPage els) \<Longrightarrow> sorted (map elPage (insertPageInOrder e els))"
  by (induction els) (auto simp: set_insertPageInOrder)

lemma set_removeFirstNodes: "set (removeFirstNodes k p els) \<subseteq> set els"
  by (induction k p els rule: removeFirstNodes.induct) auto

lemma sorted_removeFirstNodes:
  "sorted (map elPage els) \<Longrightarrow> sorted (map elPage (removeFirstNodes k p els))"
proof (induction k p els rule: removeFirstNodes.induct)
  case (3 k p e els)
  then show ?case using set_removeFirstNodes[of "Suc k" p els] by auto
qed simp_all

lemma sorted_dedupePageDom:
  "sorted (map elPage els) \<Longrightarrow> sorted (map elPage (dedupePageDom p els))"
  by (simp add: dedupePageDom_def Let_def sorted_removeFirstNodes)

lemma pagesDiv_view: "docView t = docView s \<Longrightarrow> pagesDiv t = pagesDiv s"
  by (simp add: docView_def)

lemma pagesDiv_loaderBuild:
  "pagesDiv (loaderBuild p d s) =
     dedupePageDom p (insertPageInOrder \<lparr>elId = nextNode s, elPage = p\<rparr> (pagesDiv s))"
  by (simp add: loaderBuild_def Let_def)

lemma pagesDiv_settle: "pagesDiv (settle p out s) = pagesDiv s"
  by (rule pagesDiv_view) simp

lemma pagesDiv_loaderFinish: "pagesDiv (loaderFinish p e s) = pagesDiv s"
  by (rule pagesDiv_view) simp

lemma ordered_loaderStep:
  "pagesOrdered (pagesDiv s) \<Longrightarrow> pagesOrdered (pagesDiv (loaderStep p ev s))"
proof -
  assume o: "pagesOrdered (pagesDiv s)"
  have build: "\<And>d. pagesOrdered (pagesDiv (loaderBuild p d s))"
    using o by (simp add: pagesDiv_loaderBuild pagesOrdered_sorted
        sorted_dedupePageDom sorted_insertPageInOrder)
  show ?thesis
    by (simp add: loaderStep_def build o pagesDiv_settle pagesDiv_loaderFinish
        split: option.splits stage.splits netEvent.splits)
qed

lemma pagesDiv_flush: "pagesDiv (flush s) = pagesDiv s"
  by (rule pagesDiv_view) simp

lemma ordered_step:
  "pagesOrdered (pagesDiv s) \<Longrightarrow> pagesOrdered (pagesDiv (step ev s))"
proof -
  assume o: "pagesOrdered (pagesDiv s)"
  have reset: "pagesOrdered (pagesDiv (resetAll s))"
    by (simp add: resetAll_def Let_def setStatus_def disableZoom_def pagesOrdered_def)
  have click: "\<And>i. pagesDiv (clickResult i s) = pagesDiv s"
    by (rule pagesDiv_view) simp
  have inter: "\<And>es. pagesDiv (handlePageIntersections es s) = pagesDiv s"
    by (rule pagesDiv_view) simp
  have timer: "pagesDiv (scrollSettleTimer s) = pagesDiv s"
    by (rule pagesDiv_view) simp
  show ?thesis
    by (cases ev) (simp_all add: step_def pagesDiv_flush click inter timer reset ordered_loaderStep o)
qed

lemma ordered_run:
  "pagesOrdered (pagesDiv s) \<Longrightarrow> pagesOrdered (pagesDiv (run s evs))"
  by (induction evs arbitrary: s) (simp_all add: ordered_step)

subsection \<open>Painting\<close>

lemma geometry_mkBox: "boxGeometry (mkBox i tok) = percentBox tok"
  by (simp add: boxGeometry_def mkBox_def percentBox_def split: prod.splits)

lemma geometry_frag:
  "map boxGeometry (map (\<lambda>(i, tok). mkBox i tok) (enumerate n toks)) = map percentBox toks"
  by (induction toks arbitrary: n) (simp_all add: geometry_mkBox)

lemma ids_frag:
  "map boxId (map (\<lambda>(i, tok). mkBox i tok) (enumerate n toks)) = [n ..< n + length toks]"
proof (induction toks arbitrary: n)
  case Nil
  then show ?case by simp
next
  case (Cons t toks)
  have "boxId (mkBox n t) = n" by (simp add: mkBox_def split: prod.splits)
  then show ?case using Cons[of "Suc n"] by (simp add: upt_conv_Cons del: upt_Suc)
qed

lemma highlight_boxes:
  assumes "pageCache s p = Some cache" and "currentWords s \<noteq> []"
    and "queryPage p (pagesDiv s) = Some e" and "elId e = overlay cache"
  shows "overlayBoxes (highlightPageMatches p appending s) (overlay cache) =
           (if appending then overlayBoxes s (overlay cache) else []) @
           map (\<lambda>(i, tok). mkBox i tok)
             (enumerate (nextNode s) (filter (\<lambda>tok. wordHit (currentWords s) tok) (tokens cache)))"
  using assms
  by (simp add: highlightPageMatches_def Let_def clearHighlightsOnPage_def wordHit_def)

lemma highlight_others:
  assumes "pageCache s p = Some cache" and "queryPage p (pagesDiv s) = Some e"
    and "elId e = overlay cache" and "i \<noteq> overlay cache"
  shows "overlayBoxes (highlightPageMatches p appending s) i = overlayBoxes s i"
  using assms
  by (simp add: highlightPageMatches_def Let_def clearHighlightsOnPage_def)

subsection \<open>What a call of the loader changes\<close>

lemma ensure_fields [simp]:
  "pageCache (ensurePageLoaded p k s) = pageCache s"
  "matchPageSet (ensurePageLoaded p k s) = matchPageSet s"
  "currentDoc (ensurePageLoaded p k s) = currentDoc s"
  "currentCenterPage (ensurePageLoaded p k s) = currentCenterPage s"
  "scrollDirection (ensurePageLoaded p k s) = scrollDirection s"
  "highlightedPages (ensurePageLoaded p k s) = highlightedPages s"
  "overlayBoxes (ensurePageLoaded p k s) = overlayBoxes s"
  "nextNode (ensurePageLoaded p k s) = nextNode s"
  "statusLog (ensurePageLoaded p k s) = statusLog s"
  "currentJumpToken (ensurePageLoaded p k s) = currentJumpToken s"
  "searchResults (ensurePageLoaded p k s) = searchResults s"
  by (simp_all add: ensurePageLoaded_def enqueue_def split: option.splits)

lemma safe_fields [simp]:
  "pageCache (safeEnsurePage p k s) = pageCache s"
  "matchPageSet (safeEnsurePage p k s) = matchPageSet s"
  "currentDoc (safeEnsurePage p k s) = currentDoc s"
  "currentCenterPage (safeEnsurePage p k s) = currentCenterPage s"
  "scrollDirection (safeEnsurePage p k s) = scrollDirection s"
  "highlightedPages (safeEnsurePage p k s) = highlightedPages s"
  "overlayBoxes (safeEnsurePage p k s) = overlayBoxes s"
  "nextNode (safeEnsurePage p k s) = nextNode s"
  "statusLog (safeEnsurePage p k s) = statusLog s"
  "currentJumpToken (safeEnsurePage p k s) = currentJumpToken s"
  "searchResults (safeEnsurePage p k s) = searchResults s"
  by (simp_all add: safeEnsurePage_def)

lemma safe_keeps_tickets:
  "pageLoadPromises s q \<noteq> None \<Longrightarrow> pageLoadPromises (safeEnsurePage p k s) q \<noteq> None"
  by (simp add: safeEnsurePage_def ensurePageLoaded_def enqueue_def split: option.splits)

lemma safe_ticket_after:
  "pageCache s p = None \<Longrightarrow> pageLoadPromises (safeEnsurePage p k s) p \<noteq> None"
  by (simp add: safeEnsurePage_def ensurePageLoaded_def enqueue_def split: option.splits)

lemma safe_no_fetch:
  "pageCache s p \<noteq> None \<or> pageLoadPromises s p \<noteq> None \<Longrightarrow>
     fetchLog (safeEnsurePage p k s) = fetchLog s"
  by (auto simp: safeEnsurePage_def ensurePageLoaded_def enqueue_def split: option.splits)

lemma attach_call:
  assumes "pageCache s p = None" and "pageLoadPromises s p = Some t" and "stage t \<noteq> Returned"
  shows "safeEnsurePage p k s =
           s\<lparr>pageLoadPromises := (pageLoadPromises s)(p \<mapsto> t\<lparr>waiters := waiters t @ [k]\<rparr>)\<rparr>"
  using assms by (simp add: safeEnsurePage_def ensurePageLoaded_def)

lemma first_call:
  assumes "pageCache s p = None" and "pageLoadPromises s p = None" and "currentDoc s = Some d"
  shows "safeEnsurePage p k s =
           s\<lparr>fetchLog := fetchLog s @ [(doc_id d, p)],
             pageLoadPromises := (pageLoadPromises s)(p \<mapsto> \<lparr>stage = Fetching, waiters = [k]\<rparr>)\<rparr>"
  using assms by (simp add: safeEnsurePage_def ensurePageLoaded_def)

lemma cached_call:
  assumes "pageCache s p \<noteq> None"
  shows "safeEnsurePage p k s = enqueue (KSafe p LoadOk k) s"
  using assms by (simp add: safeEnsurePage_def ensurePageLoaded_def)

subsection \<open>The window update\<close>

lemma quietStep_refl [simp]: "quietStep t t"
  by (simp add: quietStep_def)

lemma quietStep_trans: "quietStep t u \<Longrightarrow> quietStep u v \<Longrightarrow> quietStep t v"
  by (simp add: quietStep_def)

lemma quiet_attach:
  assumes "pageCache u p = None" and "pageLoadPromises u p \<noteq> None"
  shows "quietStep u (safeEnsurePage p k u)"
  using assms safe_no_fetch[of u p k] safe_keeps_tickets[of u _ p k]
  by (simp add: quietStep_def)

lemma quiet_windowStep:
  assumes "p \<in> matchPageSet u \<longrightarrow>
             (if pageCache u p = None then pageLoadPromises u p \<noteq> None
              else p \<in> set (highlightedPages u))"
  shows "quietStep u (windowStep p u)"
proof (cases "p \<in> matchPageSet u \<and> pageCache u p = None")
  case True
  then have t: "pageLoadPromises u p \<noteq> None" using assms by auto
  have "windowStep p u = safeEnsurePage p (KActivate p) u"
    using True by (simp add: windowStep_def activatePage_def)
  then show ?thesis using quiet_attach[of u p] True t by simp
next
  case False
  then have "windowStep p u = u" using assms by (auto simp: windowStep_def)
  then show ?thesis by simp
qed

lemma quiet_prefetchStep:
  assumes "p \<in> matchPageSet u \<and> pageCache u p = None \<longrightarrow> pageLoadPromises u p \<noteq> None"
  shows "quietStep u (prefetchStep p u)"
  using assms quiet_attach[of u p KNone] by (simp add: prefetchStep_def)

lemma ready_quiet:
  assumes "quietStep u v"
    and "p \<in> matchPageSet u \<longrightarrow>
           (if pageCache u p = None then pageLoadPromises u p \<noteq> None
            else p \<in> set (highlightedPages u))"
  shows "p \<in> matchPageSet v \<longrightarrow>
           (if pageCache v p = None then pageLoadPromises v p \<noteq> None
            else p \<in> set (highlightedPages v))"
proof -
  have e: "matchPageSet v = matchPageSet u" "pageCache v = pageCache u"
    "highlightedPages v = highlightedPages u"
    and m: "pageLoadPromises u p \<noteq> None \<Longrightarrow> pageLoadPromises v p \<noteq> None"
    using assms(1) by (simp_all add: quietStep_def)
  show ?thesis using assms(2) m unfolding e by (cases "pageCache u p = None") auto
qed

lemma ahead_quiet:
  assumes "quietStep u v"
    and "p \<in> matchPageSet u \<and> pageCache u p = None \<longrightarrow> pageLoadPromises u p \<noteq> None"
  shows "p \<in> matchPageSet v \<and> pageCache v p = None \<longrightarrow> pageLoadPromises v p \<noteq> None"
proof -
  have e: "matchPageSet v = matchPageSet u" "pageCache v = pageCache u"
    and m: "pageLoadPromises u p \<noteq> None \<Longrightarrow> pageLoadPromises v p \<noteq> None"
    using assms(1) by (simp_all add: quietStep_def)
  show ?thesis using assms(2) m unfolding e by blast
qed

lemma quiet_window_fold:
  assumes "\<forall>p \<in> set ps. p \<in> matchPageSet u \<longrightarrow>
             (if pageCache u p = None then pageLoadPromises u p \<noteq> None
              else p \<in> set (highlightedPages u))"
  shows "quietStep u (foldl (\<lambda>t p. windowStep p t) u ps)"
  using assms
proof (induction ps arbitrary: u)
  case Nil
  then show ?case by simp
next
  case (Cons p ps)
  have q: "quietStep u (windowStep p u)" using Cons.prems by (intro quiet_windowStep) simp
  have "\<forall>x \<in> set ps. x \<in> matchPageSet (windowStep p u) \<longrightarrow>
          (if pageCache (windowStep p u) x = None then pageLoadPromises (windowStep p u) x \<noteq> None
           else x \<in> set (highlightedPages (windowStep p u)))"
  proof
    fix x assume "x \<in> set ps"
    then have "x \<in> matchPageSet u \<longrightarrow>
             (if pageCache u x = None then pageLoadPromises u x \<noteq> None
              else x \<in> set (highlightedPages u))"
      using Cons.prems by simp
    then show "x \<in> matchPageSet (windowStep p u) \<longrightarrow>
          (if pageCache (windowStep p u) x = None then pageLoadPromises (windowStep p u) x \<noteq> None
           else x \<in> set (highlightedPages (windowStep p u)))"
      by (rule ready_quiet[OF q])
  qed
  then have "quietStep (windowStep p u) (foldl (\<lambda>t p. windowStep p t) (windowStep p u) ps)"
    by (rule Cons.IH)
  then show ?case using q by (simp add: quietStep_trans)
qed

lemma quiet_prefetch_fold:
  assumes "\<forall>p \<in> set ps. p \<in> matchPageSet u \<and> pageCache u p = None \<longrightarrow> pageLoadPromises u p \<noteq> None"
  shows "quietStep u (foldl (\<lambda>t p. prefetchStep p t) u ps)"
  using assms
proof (induction ps arbitrary: u)
  case Nil
  then show ?case by simp
next
  case (Cons p ps)
  have q: "quietStep u (prefetchStep p u)" using Cons.prems by (intro quiet_prefetchStep) simp
  have "\<forall>x \<in> set ps. x \<in> matchPageSet (prefetchStep p u) \<and> pageCache (prefetchStep p u) x = None
          \<longrightarrow> pageLoadPromises (prefetchStep p u) x \<noteq> None"
  proof
    fix x assume "x \<in> set ps"
    then have "x \<in> matchPageSet u \<and> pageCache u x = None \<longrightarrow> pageLoadPromises u x \<noteq> None"
      using Cons.prems by simp
    then show "x \<in> matchPageSet (prefetchStep p u) \<and> pageCache (prefetchStep p u) x = None
          \<longrightarrow> pageLoadPromises (prefetchStep p u) x \<noteq> None"
      by (rule ahead_quiet[OF q])
  qed
  then have "quietStep (prefetchStep p u) (foldl (\<lambda>t p. prefetchStep p t) (prefetchStep p u) ps)"
    by (rule Cons.IH)
  then show ?case using q by (simp add: quietStep_trans)
qed

lemma leave_fold_id:
  "\<forall>p \<in> set ps. a \<le> p \<and> p \<le> b \<Longrightarrow> foldl (\<lambda>t p. leaveStep a b p t) s ps = s"
  by (induction ps arbitrary: s) (auto simp: leaveStep_def)

lemma windowDone_parts:
  assumes "windowDone d c t"
  shows "currentDoc t = Some d" and "currentCenterPage t = Some c"
    and "\<forall>p \<in> set (highlightedPages t). windowStart c \<le> p \<and> p \<le> windowEnd d c"
    and "\<forall>p \<in> set [windowStart c .. windowEnd d c]. p \<in> matchPageSet t \<longrightarrow>
           (if pageCache t p = None then pageLoadPromises t p \<noteq> None
            else p \<in> set (highlightedPages t))"
    and "scrollDirection t \<noteq> 0 \<Longrightarrow>
         \<forall>p \<in> set (aheadPages (scrollDirection t) (windowStart c) (windowEnd d c) (pages d)).
           p \<in> matchPageSet t \<and> pageCache t p = None \<longrightarrow> pageLoadPromises t p \<noteq> None"
  using assms unfolding windowDone_def by blast+

lemma updateHighlightWindow_unfold:
  assumes "currentDoc t = Some d" and "currentCenterPage t = Some c"
  shows "updateHighlightWindow t =
     (let s1 = foldl (\<lambda>u p. leaveStep (windowStart c) (windowEnd d c) p u) t (highlightedPages t);
          s2 = foldl (\<lambda>u p. windowStep p u) s1 [windowStart c .. windowEnd d c]
      in if scrollDirection s2 \<noteq> 0
         then foldl (\<lambda>u p. prefetchStep p u) s2
                (aheadPages (scrollDirection s2) (windowStart c) (windowEnd d c) (pages d))
         else s2)"
  unfolding updateHighlightWindow_def bufferedHighlightMode_def using assms
  by (simp add: Let_def)

lemma window_again:
  assumes "windowDone d c t"
  shows "quietStep t (updateHighlightWindow t)"
proof -
  let ?a = "windowStart c" and ?b = "windowEnd d c"
  note parts = windowDone_parts[OF assms]
  have l: "foldl (\<lambda>u p. leaveStep ?a ?b p u) t (highlightedPages t) = t"
    using parts(3) by (rule leave_fold_id)
  define w where "w = foldl (\<lambda>u p. windowStep p u) t [?a .. ?b]"
  have qw: "quietStep t w"
    unfolding w_def using parts(4) by (rule quiet_window_fold)
  have sd: "scrollDirection w = scrollDirection t" using qw unfolding quietStep_def by blast
  define ah where "ah = aheadPages (scrollDirection w) ?a ?b (pages d)"
  have qp: "quietStep w (foldl (\<lambda>u p. prefetchStep p u) w ah)" if nz: "scrollDirection w \<noteq> 0"
  proof (rule quiet_prefetch_fold, rule ballI)
    fix p assume "p \<in> set ah"
    then have "p \<in> matchPageSet t \<and> pageCache t p = None \<longrightarrow> pageLoadPromises t p \<noteq> None"
      using parts(5) nz unfolding ah_def sd by blast
    then show "p \<in> matchPageSet w \<and> pageCache w p = None \<longrightarrow> pageLoadPromises w p \<noteq> None"
      by (rule ahead_quiet[OF qw])
  qed
  have "updateHighlightWindow t =
          (if scrollDirection w \<noteq> 0 then foldl (\<lambda>u p. prefetchStep p u) w ah else w)"
    unfolding updateHighlightWindow_unfold[OF parts(1,2)] Let_def l w_def ah_def ..
  then show ?thesis using qw quietStep_trans[OF qw qp] by simp
qed

lemma grows_refl [simp]: "grows u u"
  by (simp add: grows_def)

lemma grows_trans: "grows u v \<Longrightarrow> grows v w \<Longrightarrow> grows u w"
  by (auto simp: grows_def)

lemma ready_grows:
  assumes "grows u v"
    and "p \<in> matchPageSet u \<longrightarrow>
           (if pageCache u p = None then pageLoadPromises u p \<noteq> None
            else p \<in> set (highlightedPages u))"
  shows "p \<in> matchPageSet v \<longrightarrow>
           (if pageCache v p = None then pageLoadPromises v p \<noteq> None
            else p \<in> set (highlightedPages v))"
proof -
  have e: "matchPageSet v = matchPageSet u" "pageCache v = pageCache u"
    and h: "set (highlightedPages u) \<subseteq> set (highlightedPages v)"
    and m: "pageLoadPromises u p \<noteq> None \<Longrightarrow> pageLoadPromises v p \<noteq> None"
    using assms(1) by (simp_all add: grows_def)
  show ?thesis using assms(2) m h unfolding e by (cases "pageCache u p = None") auto
qed

lemma ahead_grows:
  assumes "grows u v"
    and "p \<in> matchPageSet u \<and> pageCache u p = None \<longrightarrow> pageLoadPromises u p \<noteq> None"
  shows "p \<in> matchPageSet v \<and> pageCache v p = None \<longrightarrow> pageLoadPromises v p \<noteq> None"
proof -
  have e: "matchPageSet v = matchPageSet u" "pageCache v = pageCache u"
    and m: "pageLoadPromises u p \<noteq> None \<Longrightarrow> pageLoadPromises v p \<noteq> None"
    using assms(1) by (simp_all add: grows_def)
  show ?thesis using assms(2) m unfolding e by blast
qed

lemma ensure_uncached:
  assumes "pageCache u p = None" and "currentDoc u = Some d"
  shows "grows u (safeEnsurePage p k u) \<and>
         highlightedPages (safeEnsurePage p k u) = highlightedPages u \<and>
         pageLoadPromises (safeEnsurePage p k u) p \<noteq> None"
  using assms safe_keeps_tickets[of u _ p k] safe_ticket_after[of u p k]
  by (simp add: grows_def)

lemma paint_fields:
  "pageCache (addHighlighted p (highlightPageMatches p a u)) = pageCache u \<and>
   matchPageSet (addHighlighted p (highlightPageMatches p a u)) = matchPageSet u \<and>
   currentDoc (addHighlighted p (highlightPageMatches p a u)) = currentDoc u \<and>
   currentCenterPage (addHighlighted p (highlightPageMatches p a u)) = currentCenterPage u \<and>
   scrollDirection (addHighlighted p (highlightPageMatches p a u)) = scrollDirection u \<and>
   pageLoadPromises (addHighlighted p (highlightPageMatches p a u)) = pageLoadPromises u \<and>
   set (highlightedPages (addHighlighted p (highlightPageMatches p a u))) = insert p (set (highlightedPages u))"
  by (auto simp: addHighlighted_def highlightPageMatches_def Let_def clearHighlightsOnPage_def
      split: option.splits)

lemma step_windowStep:
  assumes "currentDoc u = Some d"
  shows "grows u (windowStep p u) \<and>
         set (highlightedPages (windowStep p u)) \<subseteq> insert p (set (highlightedPages u)) \<and>
         (p \<in> matchPageSet (windowStep p u) \<longrightarrow>
           (if pageCache (windowStep p u) p = None then pageLoadPromises (windowStep p u) p \<noteq> None
            else p \<in> set (highlightedPages (windowStep p u))))"
proof (cases "p \<in> matchPageSet u")
  case False
  then have "windowStep p u = u" by (simp add: windowStep_def)
  then show ?thesis using False by auto
next
  case m: True
  show ?thesis
  proof (cases "pageCache u p = None")
    case True
    define v where "v = safeEnsurePage p (KActivate p) u"
    have v: "grows u v" "highlightedPages v = highlightedPages u" "pageLoadPromises v p \<noteq> None"
      using ensure_uncached[OF True assms, of "KActivate p"] by (simp_all add: v_def)
    have "windowStep p u = v"
      using m True by (simp add: windowStep_def activatePage_def v_def)
    moreover have "pageCache v p = None" "p \<in> matchPageSet v"
      using v(1) True m by (simp_all add: grows_def)
    ultimately show ?thesis using v by auto
  next
    case False
    show ?thesis
    proof (cases "p \<in> set (highlightedPages u)")
      case True
      then have "windowStep p u = u" using m False by (auto simp: windowStep_def)
      then show ?thesis using True False by auto
    next
      case nh: False
      have "windowStep p u = addHighlighted p (highlightPageMatches p False u)"
        using m False nh by (simp add: windowStep_def)
      then show ?thesis using paint_fields[of p False u] False
        by (auto simp: grows_def)
    qed
  qed
qed

lemma step_prefetchStep:
  assumes "currentDoc u = Some d"
  shows "grows u (prefetchStep p u) \<and>
         highlightedPages (prefetchStep p u) = highlightedPages u \<and>
         (p \<in> matchPageSet (prefetchStep p u) \<and> pageCache (prefetchStep p u) p = None
            \<longrightarrow> pageLoadPromises (prefetchStep p u) p \<noteq> None)"
proof (cases "p \<in> matchPageSet u \<and> pageCache u p = None")
  case True
  from True have c: "pageCache u p = None" by simp
  define v where "v = safeEnsurePage p KNone u"
  have v: "grows u v" "highlightedPages v = highlightedPages u" "pageLoadPromises v p \<noteq> None"
    using ensure_uncached[OF c assms, of KNone] by (simp_all add: v_def)
  have "prefetchStep p u = v" using True by (simp add: prefetchStep_def v_def)
  then show ?thesis using v by simp
next
  case False
  then have "prefetchStep p u = u" by (auto simp: prefetchStep_def)
  then show ?thesis using False by auto
qed

lemma window_fold_done:
  assumes "currentDoc u = Some d"
  shows "grows u (foldl (\<lambda>t p. windowStep p t) u ps) \<and>
         set (highlightedPages (foldl (\<lambda>t p. windowStep p t) u ps)) \<subseteq> set ps \<union> set (highlightedPages u) \<and>
         (\<forall>p \<in> set ps. p \<in> matchPageSet (foldl (\<lambda>t p. windowStep p t) u ps) \<longrightarrow>
           (if pageCache (foldl (\<lambda>t p. windowStep p t) u ps) p = None
            then pageLoadPromises (foldl (\<lambda>t p. windowStep p t) u ps) p \<noteq> None
            else p \<in> set (highlightedPages (foldl (\<lambda>t p. windowStep p t) u ps))))"
  using assms
proof (induction ps arbitrary: u)
  case Nil
  then show ?case by simp
next
  case (Cons p ps)
  define v where "v = windowStep p u"
  define w where "w = foldl (\<lambda>t p. windowStep p t) v ps"
  note st = step_windowStep[OF Cons.prems, of p, folded v_def]
  have dv: "currentDoc v = Some d" using st Cons.prems by (simp add: grows_def)
  note ih = Cons.IH[OF dv, folded w_def]
  have g: "grows u w" using st ih grows_trans by blast
  have hb: "set (highlightedPages w) \<subseteq> set (p # ps) \<union> set (highlightedPages u)"
    using st ih by auto
  have rp: "p \<in> matchPageSet w \<longrightarrow>
           (if pageCache w p = None then pageLoadPromises w p \<noteq> None
            else p \<in> set (highlightedPages w))"
    using ready_grows[of v w p] ih st by blast
  have "foldl (\<lambda>t p. windowStep p t) u (p # ps) = w" by (simp add: w_def v_def)
  then show ?case using g hb rp ih by simp
qed

lemma prefetch_fold_done:
  assumes "currentDoc u = Some d"
  shows "grows u (foldl (\<lambda>t p. prefetchStep p t) u ps) \<and>
         highlightedPages (foldl (\<lambda>t p. prefetchStep p t) u ps) = highlightedPages u \<and>
         (\<forall>p \<in> set ps. p \<in> matchPageSet (foldl (\<lambda>t p. prefetchStep p t) u ps) \<and>
              pageCache (foldl (\<lambda>t p. prefetchStep p t) u ps) p = None
            \<longrightarrow> pageLoadPromises (foldl (\<lambda>t p. prefetchStep p t) u ps) p \<noteq> None)"
  using assms
proof (induction ps arbitrary: u)
  case Nil
  then show ?case by simp
next
  case (Cons p ps)
  define v where "v = prefetchStep p u"
  define w where "w = foldl (\<lambda>t p. prefetchStep p t) v ps"
  note st = step_prefetchStep[OF Cons.prems, of p, folded v_def]
  have dv: "currentDoc v = Some d" using st Cons.prems by (simp add: grows_def)
  note ih = Cons.IH[OF dv, folded w_def]
  have g: "grows u w" using st ih grows_trans by blast
  have hb: "highlightedPages w = highlightedPages u" using st ih by simp
  have rp: "p \<in> matchPageSet w \<and> pageCache w p = None \<longrightarrow> pageLoadPromises w p \<noteq> None"
    using ahead_grows[of v w p] ih st by blast
  have "foldl (\<lambda>t p. prefetchStep p t) u (p # ps) = w" by (simp add: w_def v_def)
  then show ?case using g hb rp ih by simp
qed

lemma leaveStep_fields [simp]:
  "pageCache (leaveStep a b p u) = pageCache u"
  "matchPageSet (leaveStep a b p u) = matchPageSet u"
  "currentDoc (leaveStep a b p u) = currentDoc u"
  "currentCenterPage (leaveStep a b p u) = currentCenterPage u"
  "scrollDirection (leaveStep a b p u) = scrollDirection u"
  by (simp_all add: leaveStep_def deleteHighlighted_def clearHighlightsOnPage_def
      split: option.splits)

lemma leaveStep_H:
  "highlightedPages (leaveStep a b p u) =
     (if p < a \<or> b < p then removeAll p (highlightedPages u) else highlightedPages u)"
  by (simp add: leaveStep_def deleteHighlighted_def clearHighlightsOnPage_def
      split: option.splits)

lemma leave_fold_fields [simp]:
  "pageCache (foldl (\<lambda>t p. leaveStep a b p t) u ps) = pageCache u"
  "matchPageSet (foldl (\<lambda>t p. leaveStep a b p t) u ps) = matchPageSet u"
  "currentDoc (foldl (\<lambda>t p. leaveStep a b p t) u ps) = currentDoc u"
  "currentCenterPage (foldl (\<lambda>t p. leaveStep a b p t) u ps) = currentCenterPage u"
  "scrollDirection (foldl (\<lambda>t p. leaveStep a b p t) u ps) = scrollDirection u"
  by (induction ps arbitrary: u) simp_all

lemma leave_fold_H:
  "q \<in> set (highlightedPages (foldl (\<lambda>t p. leaveStep a b p t) u ps)) \<Longrightarrow>
     q \<in> set (highlightedPages u) \<and> (q \<in> set ps \<longrightarrow> a \<le> q \<and> q \<le> b)"
proof (induction ps arbitrary: u)
  case Nil
  then show ?case by simp
next
  case (Cons p ps)
  have "q \<in> set (highlightedPages (leaveStep a b p u)) \<and> (q \<in> set ps \<longrightarrow> a \<le> q \<and> q \<le> b)"
    using Cons.IH[of "leaveStep a b p u"] Cons.prems by simp
  then show ?case by (auto simp: leaveStep_H split: if_splits)
qed

lemma windowDoneI:
  assumes "currentDoc t = Some d" and "currentCenterPage t = Some c"
    and "\<forall>p \<in> set (highlightedPages t). windowStart c \<le> p \<and> p \<le> windowEnd d c"
    and "\<forall>p \<in> set [windowStart c .. windowEnd d c]. p \<in> matchPageSet t \<longrightarrow>
           (if pageCache t p = None then pageLoadPromises t p \<noteq> None
            else p \<in> set (highlightedPages t))"
    and "scrollDirection t \<noteq> 0 \<Longrightarrow>
         \<forall>p \<in> set (aheadPages (scrollDirection t) (windowStart c) (windowEnd d c) (pages d)).
           p \<in> matchPageSet t \<and> pageCache t p = None \<longrightarrow> pageLoadPromises t p \<noteq> None"
  shows "windowDone d c t"
  unfolding windowDone_def using assms by blast

lemma window_done:
  assumes doc: "currentDoc s = Some d" and cen: "currentCenterPage s = Some c"
  shows "windowDone d c (updateHighlightWindow s)"
proof -
  let ?a = "windowStart c" and ?b = "windowEnd d c"
  define s1 where "s1 = foldl (\<lambda>u p. leaveStep ?a ?b p u) s (highlightedPages s)"
  define s2 where "s2 = foldl (\<lambda>u p. windowStep p u) s1 [?a .. ?b]"
  define ah where "ah = aheadPages (scrollDirection s2) ?a ?b (pages d)"
  define s3 where "s3 = foldl (\<lambda>u p. prefetchStep p u) s2 ah"
  have d1: "currentDoc s1 = Some d" and c1: "currentCenterPage s1 = Some c"
    using doc cen by (simp_all add: s1_def)
  have h1: "\<forall>p \<in> set (highlightedPages s1). ?a \<le> p \<and> p \<le> ?b"
    unfolding s1_def using leave_fold_H[of _ ?a ?b s "highlightedPages s"] by blast
  note wf = window_fold_done[OF d1, of "[?a .. ?b]", folded s2_def]
  have g12: "grows s1 s2" using wf by simp
  have d2: "currentDoc s2 = Some d" and c2: "currentCenterPage s2 = Some c"
    using g12 d1 c1 by (simp_all add: grows_def)
  have h2: "\<forall>p \<in> set (highlightedPages s2). ?a \<le> p \<and> p \<le> ?b"
    using wf h1 by auto
  have r2: "\<forall>p \<in> set [?a .. ?b]. p \<in> matchPageSet s2 \<longrightarrow>
           (if pageCache s2 p = None then pageLoadPromises s2 p \<noteq> None
            else p \<in> set (highlightedPages s2))"
    using wf by blast
  note pf = prefetch_fold_done[OF d2, of ah, folded s3_def]
  have g23: "grows s2 s3" using pf by simp
  have d3: "currentDoc s3 = Some d" and c3: "currentCenterPage s3 = Some c"
    and sd3: "scrollDirection s3 = scrollDirection s2"
    using g23 d2 c2 by (simp_all add: grows_def)
  have h3: "\<forall>p \<in> set (highlightedPages s3). ?a \<le> p \<and> p \<le> ?b"
    using pf h2 by simp
  have r3: "\<forall>p \<in> set [?a .. ?b]. p \<in> matchPageSet s3 \<longrightarrow>
           (if pageCache s3 p = None then pageLoadPromises s3 p \<noteq> None
            else p \<in> set (highlightedPages s3))"
  proof
    fix p assume "p \<in> set [?a .. ?b]"
    then have "p \<in> matchPageSet s2 \<longrightarrow>
           (if pageCache s2 p = None then pageLoadPromises s2 p \<noteq> None
            else p \<in> set (highlightedPages s2))" using r2 by blast
    then show "p \<in> matchPageSet s3 \<longrightarrow>
           (if pageCache s3 p = None then pageLoadPromises s3 p \<noteq> None
            else p \<in> set (highlightedPages s3))"
      by (rule ready_grows[OF g23])
  qed
  have a3: "\<forall>p \<in> set (aheadPages (scrollDirection s3) ?a ?b (pages d)).
              p \<in> matchPageSet s3 \<and> pageCache s3 p = None \<longrightarrow> pageLoadPromises s3 p \<noteq> None"
    using pf unfolding sd3 ah_def[symmetric] by blast
  have u: "updateHighlightWindow s = (if scrollDirection s2 \<noteq> 0 then s3 else s2)"
    unfolding updateHighlightWindow_unfold[OF doc cen] Let_def s1_def s2_def s3_def ah_def ..
  show ?thesis
  proof (cases "scrollDirection s2 \<noteq> 0")
    case True
    then have e: "updateHighlightWindow s = s3" using u by simp
    show ?thesis unfolding e using d3 c3 h3 r3 a3 by (rule windowDoneI)
  next
    case False
    then have e: "updateHighlightWindow s = s2" using u by simp
    show ?thesis unfolding e using d2 c2 h2 r2 by (rule windowDoneI) (use False in simp)
  qed
qed

lemma windowDone_flags:
  "windowDone d c (t\<lparr>programmaticScrollInProgress := x, settleTimers := y\<rparr>) = windowDone d c t"
  by (simp add: windowDone_def)

lemma center_again:
  "currentCenterPage t = Some c \<Longrightarrow> t\<lparr>currentCenterPage := Some c\<rparr> = t"
  by (cases t) simp

subsection \<open>Tickets, callers and settlement\<close>

lemma lv_cache: "loadView t = loadView s \<Longrightarrow> pageCache t = pageCache s"
  by (simp add: loadView_def docView_def)

lemma lv_traffic:
  assumes "loadView t = loadView s" and "pageCache s p \<noteq> None"
  shows "pageLoadPromises t p = pageLoadPromises s p \<and> pageRequests p t = pageRequests p s"
proof -
  have c: "pageCache t = pageCache s" using assms(1) by (rule lv_cache)
  have "map_option (\<lambda>r. (pageLoadPromises t p, pageRequests p t)) (pageCache t p) =
        map_option (\<lambda>r. (pageLoadPromises s p, pageRequests p s)) (pageCache s p)"
    using assms(1) by (simp add: loadView_def fun_eq_iff)
  then show ?thesis using assms(2) c by auto
qed

lemma cache_of_view: "docView t = docView s \<Longrightarrow> pageCache t = pageCache s"
  by (simp add: docView_def)


lemma cache_runJob [simp]: "pageCache (runJob k s) = pageCache s"
  by (rule cache_of_view) simp

lemma cache_microStep [simp]: "pageCache (microStep s) = pageCache s"
  by (rule cache_of_view) simp

lemma cache_flush [simp]: "pageCache (flush s) = pageCache s"
  by (rule cache_of_view) simp

lemma cache_microSteps [simp]: "pageCache ((microStep ^^ n) s) = pageCache s"
  by (induction n) simp_all

lemma callAll_pending:
  assumes "pageCache s p = None" and "pageLoadPromises s p = Some t" and "stage t \<noteq> Returned"
  shows "callAll p ks s =
           s\<lparr>pageLoadPromises := (pageLoadPromises s)(p \<mapsto> t\<lparr>waiters := waiters t @ ks\<rparr>)\<rparr>"
  using assms
proof (induction ks arbitrary: s t)
  case Nil
  have "(pageLoadPromises s)(p \<mapsto> t) = pageLoadPromises s"
    using Nil by (simp add: map_upd_triv)
  then show ?case by simp
next
  case (Cons k ks)
  let ?t1 = "t\<lparr>waiters := waiters t @ [k]\<rparr>"
  let ?s1 = "s\<lparr>pageLoadPromises := (pageLoadPromises s)(p \<mapsto> ?t1)\<rparr>"
  have "callAll p (k # ks) s = callAll p ks ?s1"
    using Cons.prems by (simp add: attach_call)
  also have "\<dots> = ?s1\<lparr>pageLoadPromises := (pageLoadPromises ?s1)(p \<mapsto> ?t1\<lparr>waiters := waiters ?t1 @ ks\<rparr>)\<rparr>"
    by (rule Cons.IH) (simp_all add: Cons.prems)
  finally show ?case by (simp add: fun_upd_def cong: if_cong)
qed

lemma callAll_first:
  assumes "pageCache s p = None" and "pageLoadPromises s p = None" and "currentDoc s = Some d"
    and "ks \<noteq> []"
  shows "callAll p ks s =
           s\<lparr>fetchLog := fetchLog s @ [(doc_id d, p)],
             pageLoadPromises := (pageLoadPromises s)(p \<mapsto> \<lparr>stage = Fetching, waiters = ks\<rparr>)\<rparr>"
proof -
  obtain k ks' where ks: "ks = k # ks'" using assms(4) by (cases ks) auto
  let ?t1 = "\<lparr>stage = Fetching, waiters = [k]\<rparr>"
  let ?s1 = "s\<lparr>fetchLog := fetchLog s @ [(doc_id d, p)],
                pageLoadPromises := (pageLoadPromises s)(p \<mapsto> ?t1)\<rparr>"
  have "callAll p ks s = callAll p ks' ?s1"
    using assms ks by (simp add: first_call)
  also have "\<dots> = ?s1\<lparr>pageLoadPromises := (pageLoadPromises ?s1)(p \<mapsto> ?t1\<lparr>waiters := waiters ?t1 @ ks'\<rparr>)\<rparr>"
    by (rule callAll_pending) (simp_all add: assms)
  finally show ?thesis using ks by (simp add: fun_upd_def cong: if_cong)
qed

lemma callAll_cached:
  assumes "pageCache s p \<noteq> None"
  shows "callAll p ks s = s\<lparr>jobs := jobs s @ map (KSafe p LoadOk) ks\<rparr>"
  using assms
proof (induction ks arbitrary: s)
  case Nil
  then show ?case by simp
next
  case (Cons k ks)
  have "callAll p (k # ks) s = callAll p ks (enqueue (KSafe p LoadOk k) s)"
    using Cons.prems by (simp add: cached_call)
  also have "\<dots> = (enqueue (KSafe p LoadOk k) s)\<lparr>jobs := jobs (enqueue (KSafe p LoadOk k) s) @ map (KSafe p LoadOk) ks\<rparr>"
    by (rule Cons.IH) (simp add: enqueue_def Cons.prems)
  finally show ?case by (simp add: enqueue_def)
qed

text \<open>The jobs of a settlement, in the order they run.\<close>

lemma reported_0 [simp]: "reported p out 0 s = s"
  by (simp add: reported_def split: outcome.splits)

lemma reported_Suc: "reported p out n (safeEnsureSettled p out s) = reported p out (Suc n) s"
  by (simp add: reported_def safeEnsureSettled_def setStatus_def replicate_app_Cons_same
      split: outcome.splits)

lemma reported_jobs: "reported p out n (s\<lparr>jobs := q\<rparr>) = (reported p out n s)\<lparr>jobs := q\<rparr>"
  by (simp add: reported_def split: outcome.splits)

lemma flush_resolves:
  "flush (s\<lparr>jobs := map (KResolve p out) ks @ q\<rparr>) = flush (s\<lparr>jobs := q @ map (KSafe p out) ks\<rparr>)"
proof (induction ks arbitrary: q)
  case Nil
  then show ?case by simp
next
  case (Cons k ks)
  have "flush (s\<lparr>jobs := map (KResolve p out) (k # ks) @ q\<rparr>) =
          flush (runJob (KResolve p out k) (s\<lparr>jobs := map (KResolve p out) ks @ q\<rparr>))"
    by (subst flush_Cons[of _ "KResolve p out k" "map (KResolve p out) ks @ q"]) simp_all
  also have "\<dots> = flush (s\<lparr>jobs := map (KResolve p out) ks @ (q @ [KSafe p out k])\<rparr>)"
    by (simp add: enqueue_def)
  also have "\<dots> = flush (s\<lparr>jobs := (q @ [KSafe p out k]) @ map (KSafe p out) ks\<rparr>)"
    by (rule Cons.IH)
  finally show ?case by simp
qed

lemma flush_safes:
  "flush (s\<lparr>jobs := map (KSafe p out) ks @ q\<rparr>) =
     flush ((reported p out (length ks) s)\<lparr>jobs := q @ ks\<rparr>)"
proof (induction ks arbitrary: s q)
  case Nil
  then show ?case by simp
next
  case (Cons k ks)
  have "flush (s\<lparr>jobs := map (KSafe p out) (k # ks) @ q\<rparr>) =
          flush (runJob (KSafe p out k) (s\<lparr>jobs := map (KSafe p out) ks @ q\<rparr>))"
    by (subst flush_Cons[of _ "KSafe p out k" "map (KSafe p out) ks @ q"]) simp_all
  also have "\<dots> = flush ((safeEnsureSettled p out s)\<lparr>jobs := map (KSafe p out) ks @ (q @ [k])\<rparr>)"
    by (simp add: enqueue_def safeEnsureSettled_def setStatus_def split: outcome.splits)
  also have "\<dots> = flush ((reported p out (length ks) (safeEnsureSettled p out s))\<lparr>jobs := (q @ [k]) @ ks\<rparr>)"
    by (rule Cons.IH)
  finally show ?case by (simp add: reported_Suc)
qed

lemma flush_settled:
  "flush (s\<lparr>jobs := KFinally p out k # map (KResolve p out) ks\<rparr>) =
     flush ((reported p out (Suc (length ks)) (ticketDone p s))\<lparr>jobs := k # ks\<rparr>)"
proof -
  have "flush (s\<lparr>jobs := KFinally p out k # map (KResolve p out) ks\<rparr>) =
          flush (runJob (KFinally p out k) (s\<lparr>jobs := map (KResolve p out) ks\<rparr>))"
    by (subst flush_Cons[of _ "KFinally p out k" "map (KResolve p out) ks"]) simp_all
  also have "\<dots> = flush ((ticketDone p s)\<lparr>jobs := map (KResolve p out) ks @ [KSafe p out k]\<rparr>)"
    by (simp add: enqueue_def ticketDone_def)
  also have "\<dots> = flush ((ticketDone p s)\<lparr>jobs := [KSafe p out k] @ map (KSafe p out) ks\<rparr>)"
    by (rule flush_resolves)
  also have "\<dots> = flush ((ticketDone p s)\<lparr>jobs := map (KSafe p out) (k # ks) @ []\<rparr>)"
    by simp
  also have "\<dots> = flush ((reported p out (length (k # ks)) (ticketDone p s))\<lparr>jobs := [] @ (k # ks)\<rparr>)"
    by (rule flush_safes)
  finally show ?thesis by simp
qed

lemma settle_flush:
  assumes "pageLoadPromises s p = Some t" and "jobs s = []"
  shows "flush (settle p out s) =
           flush ((reported p out (length (waiters t)) (ticketDone p s))\<lparr>jobs := waiters t\<rparr>)"
proof (cases "waiters t")
  case Nil
  have a: "settle p out s = ticketDone p s"
    using assms Nil by (simp add: settle_def)
  have b: "(reported p out (length (waiters t)) (ticketDone p s))\<lparr>jobs := waiters t\<rparr> = ticketDone p s"
    using assms(2) Nil by (simp add: ticketDone_def)
  show ?thesis unfolding a b ..
next
  case (Cons k ks)
  have "settle p out s = s\<lparr>jobs := KFinally p out k # map (KResolve p out) ks\<rparr>"
    using assms Cons by (simp add: settle_def)
  then show ?thesis using Cons by (simp add: flush_settled)
qed

lemma failure_settles:
  assumes "pageLoadPromises s p = Some t" and "loadFailure (stage t) ev p = Some e"
  shows "loaderStep p ev s = settle p (LoadErr e) s"
  using assms
  by (auto simp: loaderStep_def loadFailure_def split: stage.splits netEvent.splits if_splits)

text \<open>A page that is cached and has no ticket stays so through every job.\<close>

lemma cached_runJob:
  assumes "pageCache s p \<noteq> None" and "pageLoadPromises s p = None"
  shows "pageLoadPromises (runJob k s) p = None \<and> pageRequests p (runJob k s) = pageRequests p s"
proof (cases "(\<exists>q out k'. k = KFinally q out k') \<or> (\<exists>q e k'. k = KSafe q (LoadErr e) k')")
  case True
  then show ?thesis using assms(2)
    by (auto simp: enqueue_def ticketDone_def pageRequests_def safeEnsureSettled_def setStatus_def)
next
  case False
  then have "loadView (runJob k s) = loadView s" by (intro lview_runJob) auto
  then show ?thesis using lv_traffic[of "runJob k s" s p] assms by simp
qed

lemma cached_microStep:
  assumes "pageCache s p \<noteq> None" and "pageLoadPromises s p = None"
  shows "pageLoadPromises (microStep s) p = None \<and> pageRequests p (microStep s) = pageRequests p s"
proof (cases "jobs s")
  case Nil
  then show ?thesis using assms by (simp add: microStep_def)
next
  case (Cons k ks)
  have "pageLoadPromises (runJob k (s\<lparr>jobs := ks\<rparr>)) p = None \<and>
        pageRequests p (runJob k (s\<lparr>jobs := ks\<rparr>)) = pageRequests p (s\<lparr>jobs := ks\<rparr>)"
    by (rule cached_runJob) (simp_all add: assms)
  then show ?thesis using Cons by (simp add: microStep_def pageRequests_def)
qed

lemma cached_microSteps:
  assumes "pageCache s p \<noteq> None" and "pageLoadPromises s p = None"
  shows "pageLoadPromises ((microStep ^^ n) s) p = None \<and>
         pageRequests p ((microStep ^^ n) s) = pageRequests p s"
proof (induction n)
  case 0
  then show ?case using assms by simp
next
  case (Suc n)
  have "pageCache ((microStep ^^ n) s) p \<noteq> None" using assms(1) by simp
  then show ?case using Suc cached_microStep[of "(microStep ^^ n) s" p] by simp
qed

lemma cached_flush:
  fixes s :: "('n::{times,minus,numeral}) state"
  assumes "pageCache s p \<noteq> None" and "pageLoadPromises s p = None"
  shows "pageLoadPromises (flush s) p = None \<and> pageRequests p (flush s) = pageRequests p s"
proof -
  have "pageCache (flush s) p \<noteq> None \<and> pageLoadPromises (flush s) p = None \<and>
        pageRequests p (flush s) = pageRequests p s"
  proof (rule flush_invariant[where P = "\<lambda>t. pageCache t p \<noteq> None \<and> pageLoadPromises t p = None \<and>
        pageRequests p t = pageRequests p s"])
    fix t :: "'n state"
    assume "pageCache t p \<noteq> None \<and> pageLoadPromises t p = None \<and> pageRequests p t = pageRequests p s"
    then show "pageCache (microStep t) p \<noteq> None \<and> pageLoadPromises (microStep t) p = None \<and>
        pageRequests p (microStep t) = pageRequests p s"
      using cached_microStep[of t p] by simp
  next
    show "pageCache s p \<noteq> None \<and> pageLoadPromises s p = None \<and> pageRequests p s = pageRequests p s"
      using assms by simp
  qed
  then show ?thesis by simp
qed


text \<open>The course of a load whose callers arrive during the fetch and the decoding.\<close>

lemma jobs_callAll_pending:
  assumes "pageCache s p = None" and "pageLoadPromises s p = Some t" and "stage t \<noteq> Returned"
  shows "jobs (callAll p ks s) = jobs s"
  using callAll_pending[OF assms, of ks] by simp

lemma netTask_quiet: "jobs (loaderStep p ev s) = [] \<Longrightarrow> netTask p ev s = loaderStep p ev s"
  by (simp add: netTask_def flush_Nil)

lemma loadingWith_eq:
  fixes s :: "('n::{times,minus,numeral}) state"
  assumes "pageCache s p = None" and "pageLoadPromises s p = None" and "currentDoc s = Some d"
    and "jobs s = []" and "ks1 \<noteq> []"
  shows "loadingWith p ks1 ks2 s =
           s\<lparr>fetchLog := fetchLog s @ [(doc_id d, p)],
             pageLoadPromises :=
               (pageLoadPromises s)(p \<mapsto> \<lparr>stage = Decoding True, waiters = ks1 @ ks2\<rparr>)\<rparr>"
proof -
  define a where "a = callAll p ks1 s"
  have a: "a = s\<lparr>fetchLog := fetchLog s @ [(doc_id d, p)],
                  pageLoadPromises := (pageLoadPromises s)(p \<mapsto> \<lparr>stage = Fetching, waiters = ks1\<rparr>)\<rparr>"
    unfolding a_def using assms(1,2,3,5) by (rule callAll_first)
  define b where "b = netTask p (FetchResolved True) a"
  have "loaderStep p (FetchResolved True) a =
          a\<lparr>pageLoadPromises := (pageLoadPromises a)(p \<mapsto> \<lparr>stage = Decoding True, waiters = ks1\<rparr>)\<rparr>"
    by (simp add: a loaderStep_def)
  then have b: "b = s\<lparr>fetchLog := fetchLog s @ [(doc_id d, p)],
                  pageLoadPromises := (pageLoadPromises s)(p \<mapsto> \<lparr>stage = Decoding True, waiters = ks1\<rparr>)\<rparr>"
    unfolding b_def using assms(4) by (simp add: netTask_quiet a)
  have "callAll p ks2 b =
          b\<lparr>pageLoadPromises := (pageLoadPromises b)(p \<mapsto>
               \<lparr>stage = Decoding True, waiters = ks1\<rparr>\<lparr>waiters := waiters \<lparr>stage = Decoding True, waiters = ks1\<rparr> @ ks2\<rparr>)\<rparr>"
    by (rule callAll_pending) (simp_all add: b assms(1))
  then show ?thesis by (simp add: loadingWith_def a_def[symmetric] b_def[symmetric] b)
qed

lemma jobs_loaderFinish [simp]: "jobs (loaderFinish p el s) = jobs s"
  by (simp add: loaderFinish_def Let_def)

lemma loadSucceeds_eq:
  fixes s :: "('n::{times,minus,numeral}) state"
  assumes "pageLoadPromises s p = Some \<lparr>stage = Decoding True, waiters = ks\<rparr>" and "jobs s = []"
  shows "netTask p (JsonResolved dat) s = loaderBuild p dat s"
    and "loadSucceeds p dat s =
           flush ((ticketDone p (loaderFinish p (nextNode s) (loaderBuild p dat s)))\<lparr>jobs := ks\<rparr>)"
proof -
  define b where "b = loaderBuild p dat s"
  have ls: "loaderStep p (JsonResolved dat) s = b"
    using assms(1) by (simp add: loaderStep_def b_def)
  have jb: "jobs b = []" using assms(2) by (simp add: b_def loaderBuild_def Let_def)
  show nb: "netTask p (JsonResolved dat) s = loaderBuild p dat s"
    using ls jb by (simp add: netTask_quiet b_def)
  have b_tk: "pageLoadPromises b p = Some \<lparr>stage = ImageWait (nextNode s), waiters = ks\<rparr>"
    using assms(1) by (simp add: b_def loaderBuild_def Let_def)
  have b_cache: "pageCache b p \<noteq> None" by (simp add: b_def loaderBuild_def Let_def)
  define c where "c = loaderFinish p (nextNode s) b"
  have c_tk: "pageLoadPromises c p = Some \<lparr>stage = ImageWait (nextNode s), waiters = ks\<rparr>"
    unfolding c_def using lv_traffic[of "loaderFinish p (nextNode s) b" b p] b_cache b_tk by simp
  have jc: "jobs c = []" using jb by (simp add: c_def)
  have "netTask p ImageSettled b = flush (settle p LoadOk c)"
    using b_tk by (simp add: netTask_def loaderStep_def c_def)
  also have "\<dots> = flush ((reported p LoadOk (length (waiters \<lparr>stage = ImageWait (nextNode s), waiters = ks\<rparr>))
                        (ticketDone p c))\<lparr>jobs := waiters \<lparr>stage = ImageWait (nextNode s), waiters = ks\<rparr>\<rparr>)"
    using c_tk jc by (rule settle_flush)
  finally show "loadSucceeds p dat s =
           flush ((ticketDone p (loaderFinish p (nextNode s) (loaderBuild p dat s)))\<lparr>jobs := ks\<rparr>)"
    by (simp add: loadSucceeds_def nb b_def c_def reported_def)
qed

subsection \<open>The status line\<close>

lemma status_simple [simp]:
  "statusLog (enqueue k s) = statusLog s"
  "statusLog (ticketDone p s) = statusLog s"
  "statusLog (clearAllHighlights s) = statusLog s"
  "statusLog (clearHighlightsOnPage p s) = statusLog s"
  "statusLog (addHighlighted p s) = statusLog s"
  "statusLog (deleteHighlighted p s) = statusLog s"
  "statusLog (scrollPageIntoView p s) = statusLog s"
  "statusLog (showPageText p s) = statusLog s"
  by (simp_all add: enqueue_def ticketDone_def clearAllHighlights_def clearHighlightsOnPage_def
      addHighlighted_def deleteHighlighted_def scrollPageIntoView_def showPageText_def Let_def
      split: option.splits)

lemma status_highlightPageMatches [simp]: "statusLog (highlightPageMatches p a s) = statusLog s"
  by (simp add: highlightPageMatches_def Let_def split: option.splits)

lemma status_activateAfter [simp]: "statusLog (activateAfter p s) = statusLog s"
  by (simp add: activateAfter_def)

lemma status_selectAfterLoad [simp]: "statusLog (selectAfterLoad p a b s) = statusLog s"
  by (simp add: selectAfterLoad_def Let_def)

lemma status_windowStep [simp]: "statusLog (windowStep p s) = statusLog s"
  by (simp add: windowStep_def activatePage_def)

lemma status_prefetchStep [simp]: "statusLog (prefetchStep p s) = statusLog s"
  by (simp add: prefetchStep_def)

lemma status_leaveStep [simp]: "statusLog (leaveStep a b p s) = statusLog s"
  by (simp add: leaveStep_def)

lemma status_fold:
  "(\<And>t p. statusLog (g t p) = statusLog t) \<Longrightarrow> statusLog (foldl g s ps) = statusLog s"
  by (induction ps arbitrary: s) simp_all

lemma status_updateHighlightWindow [simp]: "statusLog (updateHighlightWindow s) = statusLog s"
  by (simp add: updateHighlightWindow_def Let_def status_fold split: option.splits)

lemma status_setCenterPage [simp]: "statusLog (setCenterPage p fc s) = statusLog s"
  by (simp add: setCenterPage_def Let_def)

lemma status_selectResultIndex [simp]: "statusLog (selectResultIndex i a b k s) = statusLog s"
  by (simp add: selectResultIndex_def Let_def)

lemma status_clickAfterPreload [simp]: "statusLog (clickAfterPreload tok i p s) = statusLog s"
  by (simp add: clickAfterPreload_def)

lemma status_preloadFold:
  "statusLog (snd (foldl (preloadTask j) acc ps)) = statusLog (snd acc)"
  by (induction ps arbitrary: acc) (simp_all add: preloadTask_def split: prod.splits)

lemma status_preloadJumpWindow [simp]: "statusLog (preloadJumpWindow c parent s) = statusLog s"
proof (cases "currentDoc s")
  case None
  then show ?thesis by (simp add: preloadJumpWindow_def)
next
  case (Some d)
  obtain n s1 where f: "foldl (preloadTask (nextJoin s)) (0, s) [windowStart c .. windowEnd d c] = (n, s1)"
    by (cases "foldl (preloadTask (nextJoin s)) (0, s) [windowStart c .. windowEnd d c]") auto
  have "statusLog s1 = statusLog s"
    using status_preloadFold[of "nextJoin s" "(0, s)" "[windowStart c .. windowEnd d c]"] f by simp
  then show ?thesis using Some f by (simp add: preloadJumpWindow_def Let_def)
qed

lemma status_joinArrive [simp]: "statusLog (joinArrive j s) = statusLog s"
  by (simp add: joinArrive_def split: option.splits prod.splits)



section \<open>The claims\<close>

text \<open>
  Claim C1.  After any \<open>setCenter\<close> call and after the loads it started have resolved,
  the highlighted pages are the pages of the window that are in the match set and have a
  page record.  The code breaks this in \<open>activatePage\<close>, which adds the page after its
  await without looking at the cache or the window again: when the request of page 4
  fails, page 4 is highlighted with no page record; when the center moves from 4 to 9
  while page 4 loads, page 4 ends highlighted (and painted) outside the window 7..10.
\<close>

theorem window_invariant_broken:
  "highlightedPages loadFailsInWindow = [4] \<and> pageCache loadFailsInWindow 4 = None \<and>
   currentCenterPage windowMovesWhileLoading = Some 9 \<and> windowStart 9 = 7 \<and>
   windowView windowMovesWhileLoading = ([4], [4], [(4, [(25, 50, 25, 25)])])"
  by code_simp

text \<open>
  Claim C2, as the code has it.  With a document open and the job queue empty, for a page
  \<open>p\<close> that is neither cached nor loading, let the callers \<open>ks1\<close> (at least one) call
  during the fetch and the callers \<open>ks2\<close> during the decoding.
  \<^item> One request is sent, and all these callers wait on one ticket in the order they called.
  \<^item> When the load succeeds, the last task is the checkpoint run from the state the loader
    leaves, with the ticket deleted and exactly these callers queued in that order.  At
    every job of it the cache holds the same page record for \<open>p\<close>, \<open>p\<close> has no ticket, and
    \<open>p\<close> has been requested once; so it is at the end.
  \<^item> When the decoding fails, the task is the checkpoint run from the state with the ticket
    deleted, the same error reported once for each of these callers, and the callers
    queued in that order; the page has no page record.
  \<^item> Once the page record is stored, while the ticket waits for the image, a call sends
    nothing and does not wait on the ticket: the callers \<open>ks3\<close> are queued to continue at
    once (\<open>KSafe\<close>), and the ticket keeps the waiters it had.
  \<^item> In any state: a call for a page that has no page record and a pending ticket adds the
    caller to that ticket and changes nothing else; a call for a page that has a page record
    only queues the caller; and a call sends a request only for a page that has neither a
    page record nor a ticket.
\<close>

theorem dedup_single_fetch:
  fixes dat :: "('n::{times,minus,numeral}) pageData" and s :: "'n state"
  assumes "pageCache s p = None" and "pageLoadPromises s p = None"
    and "currentDoc s = Some d" and "jobs s = []" and "ks1 \<noteq> []"
  shows
    "fetchLog (loadingWith p ks1 ks2 s) = fetchLog s @ [(doc_id d, p)] \<and>
     pageLoadPromises (loadingWith p ks1 ks2 s) p =
       Some \<lparr>stage = Decoding True, waiters = ks1 @ ks2\<rparr> \<and>
     loadSucceeds p dat (loadingWith p ks1 ks2 s) =
       flush ((ticketDone p (loaderFinish p (nextNode s) (loaderBuild p dat (loadingWith p ks1 ks2 s))))
                \<lparr>jobs := ks1 @ ks2\<rparr>) \<and>
     (\<forall>n. pageCache
            ((microStep ^^ n)
               ((ticketDone p (loaderFinish p (nextNode s) (loaderBuild p dat (loadingWith p ks1 ks2 s))))
                  \<lparr>jobs := ks1 @ ks2\<rparr>)) p =
            Some \<lparr>tokens = dataTokens dat, ptext = dataText dat, overlay = nextNode s\<rparr> \<and>
          pageLoadPromises
            ((microStep ^^ n)
               ((ticketDone p (loaderFinish p (nextNode s) (loaderBuild p dat (loadingWith p ks1 ks2 s))))
                  \<lparr>jobs := ks1 @ ks2\<rparr>)) p = None \<and>
          pageRequests p
            ((microStep ^^ n)
               ((ticketDone p (loaderFinish p (nextNode s) (loaderBuild p dat (loadingWith p ks1 ks2 s))))
                  \<lparr>jobs := ks1 @ ks2\<rparr>)) = pageRequests p s @ [(doc_id d, p)]) \<and>
     pageCache (loadSucceeds p dat (loadingWith p ks1 ks2 s)) p =
       Some \<lparr>tokens = dataTokens dat, ptext = dataText dat, overlay = nextNode s\<rparr> \<and>
     pageLoadPromises (loadSucceeds p dat (loadingWith p ks1 ks2 s)) p = None \<and>
     pageRequests p (loadSucceeds p dat (loadingWith p ks1 ks2 s)) = pageRequests p s @ [(doc_id d, p)] \<and>
     netTask p (JsonRejected e) (loadingWith p ks1 ks2 s) =
       flush ((ticketDone p (loadingWith p ks1 ks2 s))
                \<lparr>statusLog := statusLog s @
                   replicate (length (ks1 @ ks2)) (StPageLoadError p (NetworkError e)),
                 jobs := ks1 @ ks2\<rparr>) \<and>
     pageCache (netTask p (JsonRejected e) (loadingWith p ks1 ks2 s)) p = None \<and>
     pageLoadPromises (netTask p (JsonResolved dat) (loadingWith p ks1 ks2 s)) p =
       Some \<lparr>stage = ImageWait (nextNode s), waiters = ks1 @ ks2\<rparr> \<and>
     pageCache (netTask p (JsonResolved dat) (loadingWith p ks1 ks2 s)) p =
       Some \<lparr>tokens = dataTokens dat, ptext = dataText dat, overlay = nextNode s\<rparr> \<and>
     callAll p ks3 (netTask p (JsonResolved dat) (loadingWith p ks1 ks2 s)) =
       (netTask p (JsonResolved dat) (loadingWith p ks1 ks2 s))\<lparr>jobs := map (KSafe p LoadOk) ks3\<rparr> \<and>
     (\<forall>(t :: 'n state) tk k.
        pageCache t p = None \<and> pageLoadPromises t p = Some tk \<and> stage tk \<noteq> Returned \<longrightarrow>
        safeEnsurePage p k t =
          t\<lparr>pageLoadPromises := (pageLoadPromises t)(p \<mapsto> tk\<lparr>waiters := waiters tk @ [k]\<rparr>)\<rparr>) \<and>
     (\<forall>(t :: 'n state) k.
        pageCache t p \<noteq> None \<longrightarrow> safeEnsurePage p k t = t\<lparr>jobs := jobs t @ [KSafe p LoadOk k]\<rparr>) \<and>
     (\<forall>(t :: 'n state) k q.
        fetchLog (safeEnsurePage q k t) \<noteq> fetchLog t \<longrightarrow>
        pageCache t q = None \<and> pageLoadPromises t q = None)"
proof -
  let ?r = "\<lparr>tokens = dataTokens dat, ptext = dataText dat, overlay = nextNode s\<rparr>"
  define L where "L = loadingWith p ks1 ks2 s"
  have L: "L = s\<lparr>fetchLog := fetchLog s @ [(doc_id d, p)],
                  pageLoadPromises :=
                    (pageLoadPromises s)(p \<mapsto> \<lparr>stage = Decoding True, waiters = ks1 @ ks2\<rparr>)\<rparr>"
    unfolding L_def using assms by (rule loadingWith_eq)
  have L_log: "fetchLog L = fetchLog s @ [(doc_id d, p)]" by (simp add: L)
  have L_tk: "pageLoadPromises L p = Some \<lparr>stage = Decoding True, waiters = ks1 @ ks2\<rparr>"
    by (simp add: L)
  have L_jobs: "jobs L = []" using assms(4) by (simp add: L)
  have L_unc: "pageCache L p = None" using assms(1) by (simp add: L)
  have L_nn: "nextNode L = nextNode s" by (simp add: L)
  have L_st: "statusLog L = statusLog s" by (simp add: L)
  have L_req: "pageRequests p L = pageRequests p s @ [(doc_id d, p)]"
    by (simp add: L pageRequests_def)
  define b where "b = loaderBuild p dat L"
  have nb: "netTask p (JsonResolved dat) L = b"
    unfolding b_def using L_tk L_jobs by (rule loadSucceeds_eq(1))
  have b_tk: "pageLoadPromises b p = Some \<lparr>stage = ImageWait (nextNode s), waiters = ks1 @ ks2\<rparr>"
    using L_tk L_nn by (simp add: b_def loaderBuild_def Let_def)
  have b_cache: "pageCache b p = Some ?r" using L_nn by (simp add: b_def loaderBuild_def Let_def)
  have b_req: "pageRequests p b = pageRequests p s @ [(doc_id d, p)]"
    using L_req by (simp add: b_def loaderBuild_def Let_def pageRequests_def)
  have b_jobs: "jobs b = []" using L_jobs by (simp add: b_def loaderBuild_def Let_def)
  have late: "callAll p ks3 b = b\<lparr>jobs := map (KSafe p LoadOk) ks3\<rparr>"
    using callAll_cached[of b p ks3] b_cache b_jobs by simp
  define u where "u = (ticketDone p (loaderFinish p (nextNode s) b))\<lparr>jobs := ks1 @ ks2\<rparr>"
  have ok: "loadSucceeds p dat L = flush u"
    unfolding u_def b_def using loadSucceeds_eq(2)[OF L_tk L_jobs, of dat] L_nn by simp
  have fin: "pageCache (loaderFinish p (nextNode s) b) p = Some ?r \<and>
             pageRequests p (loaderFinish p (nextNode s) b) = pageRequests p s @ [(doc_id d, p)]"
    using lv_traffic[of "loaderFinish p (nextNode s) b" b p]
      lv_cache[of "loaderFinish p (nextNode s) b" b] b_cache b_req by simp
  have u_cache: "pageCache u p = Some ?r" using fin by (simp add: u_def ticketDone_def)
  have u_tk: "pageLoadPromises u p = None" by (simp add: u_def ticketDone_def)
  have u_req: "pageRequests p u = pageRequests p s @ [(doc_id d, p)]"
    using fin by (simp add: u_def ticketDone_def pageRequests_def)
  have every: "\<forall>n. pageCache ((microStep ^^ n) u) p = Some ?r \<and>
                   pageLoadPromises ((microStep ^^ n) u) p = None \<and>
                   pageRequests p ((microStep ^^ n) u) = pageRequests p s @ [(doc_id d, p)]"
    using cached_microSteps[of u p] u_cache u_tk u_req by simp
  have fin_ok: "pageCache (flush u) p = Some ?r \<and> pageLoadPromises (flush u) p = None \<and>
                pageRequests p (flush u) = pageRequests p s @ [(doc_id d, p)]"
    using cached_flush[of u p] u_cache u_tk u_req by simp
  have fl: "loadFailure (stage \<lparr>stage = Decoding True, waiters = ks1 @ ks2\<rparr>) (JsonRejected e) p
              = Some (NetworkError e)"
    by (simp add: loadFailure_def)
  have "netTask p (JsonRejected e) L = flush (settle p (LoadErr (NetworkError e)) L)"
    using failure_settles[OF L_tk fl] by (simp add: netTask_def)
  also have "\<dots> = flush ((reported p (LoadErr (NetworkError e))
                        (length (waiters \<lparr>stage = Decoding True, waiters = ks1 @ ks2\<rparr>)) (ticketDone p L))
                      \<lparr>jobs := waiters \<lparr>stage = Decoding True, waiters = ks1 @ ks2\<rparr>\<rparr>)"
    using L_tk L_jobs by (rule settle_flush)
  finally have bad: "netTask p (JsonRejected e) L =
       flush ((ticketDone p L)
                \<lparr>statusLog := statusLog s @
                   replicate (length (ks1 @ ks2)) (StPageLoadError p (NetworkError e)),
                 jobs := ks1 @ ks2\<rparr>)"
    using L_st by (simp add: reported_def ticketDone_def)
  have bad_cache: "pageCache (netTask p (JsonRejected e) L) p = None"
    unfolding bad using L_unc by (simp add: ticketDone_def)
  have g1: "\<forall>(t :: 'n state) tk k.
        pageCache t p = None \<and> pageLoadPromises t p = Some tk \<and> stage tk \<noteq> Returned \<longrightarrow>
        safeEnsurePage p k t =
          t\<lparr>pageLoadPromises := (pageLoadPromises t)(p \<mapsto> tk\<lparr>waiters := waiters tk @ [k]\<rparr>)\<rparr>"
    by (simp add: attach_call)
  have g2: "\<forall>(t :: 'n state) k.
        pageCache t p \<noteq> None \<longrightarrow> safeEnsurePage p k t = t\<lparr>jobs := jobs t @ [KSafe p LoadOk k]\<rparr>"
    by (simp add: cached_call enqueue_def)
  have g3: "\<forall>(t :: 'n state) k q.
        fetchLog (safeEnsurePage q k t) \<noteq> fetchLog t \<longrightarrow>
        pageCache t q = None \<and> pageLoadPromises t q = None"
    using safe_no_fetch by blast
  show ?thesis
    unfolding L_def[symmetric] nb b_def[symmetric] u_def[symmetric] ok
    using L_log L_tk every fin_ok bad[unfolded L_def[symmetric]] bad_cache b_tk b_cache late g1 g2 g3
    by blast
qed

theorem dedup_single_fetch_witness:
  "pageCache (viewerState 10 [4]) 4 = None \<and> pageLoadPromises (viewerState 10 [4]) 4 = None \<and>
   currentDoc (viewerState 10 [4]) = Some \<lparr>doc_id = ''d'', pages = 10\<rparr> \<and>
   jobs (viewerState 10 [4]) = [] \<and> [KActivate 4, KNone] \<noteq> [] \<and>
   fetchLog (loadingWith 4 [KActivate 4, KNone] [KClickLoaded 1 0 4] (viewerState 10 [4])) = [(''d'', 4)] \<and>
   pageLoadPromises (loadingWith 4 [KActivate 4, KNone] [KClickLoaded 1 0 4] (viewerState 10 [4])) 4 =
     Some \<lparr>stage = Decoding True, waiters = [KActivate 4, KNone, KClickLoaded 1 0 4]\<rparr> \<and>
   pageRequests 4
     (loadSucceeds 4 demoData (loadingWith 4 [KActivate 4, KNone] [KClickLoaded 1 0 4] (viewerState 10 [4])))
     = [(''d'', 4)] \<and>
   map snd
     (fetchLog
        (loadSucceeds 4 demoData (loadingWith 4 [KActivate 4, KNone] [KClickLoaded 1 0 4] (viewerState 10 [4]))))
     = [4, 2, 3, 5, 6]"
proof -
  have h1: "pageCache (viewerState 10 [4]) 4 = None" by (simp add: viewerState_def)
  have h2: "pageLoadPromises (viewerState 10 [4]) 4 = None" by (simp add: viewerState_def)
  have h3: "currentDoc (viewerState 10 [4]) = Some \<lparr>doc_id = ''d'', pages = 10\<rparr>"
    by (simp add: viewerState_def)
  have h4: "jobs (viewerState 10 [4]) = []" by (simp add: viewerState_def)
  have h5: "[KActivate 4, KNone] \<noteq> []" by simp
  have e: "fetchLog (viewerState 10 [4]) = []" "pageRequests 4 (viewerState 10 [4]) = []"
    by (simp_all add: viewerState_def pageRequests_def)
  note t = dedup_single_fetch [OF h1 h2 h3 h4 h5, of "[KClickLoaded 1 0 4]" demoData "''offline''" "[]"]
  have c1: "fetchLog (loadingWith 4 [KActivate 4, KNone] [KClickLoaded 1 0 4] (viewerState 10 [4])) = [(''d'', 4)]"
    using t [THEN conjunct1] e by simp
  have c2: "pageLoadPromises (loadingWith 4 [KActivate 4, KNone] [KClickLoaded 1 0 4] (viewerState 10 [4])) 4 =
     Some \<lparr>stage = Decoding True, waiters = [KActivate 4, KNone, KClickLoaded 1 0 4]\<rparr>"
    using t [THEN conjunct2, THEN conjunct1] by simp
  have c3: "pageRequests 4
     (loadSucceeds 4 demoData (loadingWith 4 [KActivate 4, KNone] [KClickLoaded 1 0 4] (viewerState 10 [4])))
     = [(''d'', 4)]"
    using t [THEN conjunct2, THEN conjunct2, THEN conjunct2, THEN conjunct2, THEN conjunct2,
      THEN conjunct2, THEN conjunct1] e by simp
  have c4: "map snd
     (fetchLog
        (loadSucceeds 4 demoData (loadingWith 4 [KActivate 4, KNone] [KClickLoaded 1 0 4] (viewerState 10 [4]))))
     = [4, 2, 3, 5, 6]"
    by code_simp
  show ?thesis using h1 h2 h3 h4 h5 c1 c2 c3 c4 by simp
qed

text \<open>
  Claim C2 as stated says that every caller that starts while the ticket is live awaits
  it.  In \<open>imageWaiting\<close> the ticket of page 3 is live, waiting for the image, with the first
  jump as its waiter.  A call of \<open>safeEnsurePage(3)\<close> made then is not added to the ticket
  and is queued to continue at once.  So the second jump, in \<open>lateJump\<close>, centers page 3
  and scrolls to it while the ticket is still live and the first jump still waits on it.
\<close>

theorem late_caller_counterexample:
  "pageLoadPromises imageWaiting 3 = Some \<lparr>stage = ImageWait 0, waiters = [KClickLoaded 1 0 3]\<rparr> \<and>
   pageLoadPromises (safeEnsurePage 3 (KClickLoaded 2 0 3) imageWaiting) 3 =
     Some \<lparr>stage = ImageWait 0, waiters = [KClickLoaded 1 0 3]\<rparr> \<and>
   jobs (safeEnsurePage 3 (KClickLoaded 2 0 3) imageWaiting) = [KSafe 3 LoadOk (KClickLoaded 2 0 3)] \<and>
   jumpView lateJump = (2, Some 3, [3], [3], [StJumping 3, StJumping 3, StCentered 3]) \<and>
   pageLoadPromises lateJump 3 = Some \<lparr>stage = ImageWait 0, waiters = [KClickLoaded 1 0 3]\<rparr>"
  by code_simp

text \<open>
  Claim C3.  A jump whose token has been superseded performs none of its side effects
  after any of its suspension points.  The click handler compares the token once, after
  \<open>preloadJumpWindow\<close>, and not after \<open>await selectResultIndex\<close>: in the scenario the
  jump to page 70 (token 3) has centered page 70, and the earlier jump to page 30
  (token 2), resumed by its late load of page 30, moves the center and the highlights to
  page 30, scrolls there and reports page 30 as centered.
\<close>

theorem stale_jump_recenters:
  "jumpView firstResultCentered =
     (1, Some 10, [10], [10], [StJumping 10, StCentered 10]) \<and>
   jumpView secondJumpDone =
     (3, Some 70, [70], [10, 70],
      [StJumping 10, StCentered 10, StJumping 30,
       StPageLoadError 30 (NetworkError ''offline''),
       StPageLoadError 30 (NetworkError ''offline''), StJumping 70, StCentered 70]) \<and>
   jumpView staleJumpResumes =
     (3, Some 30, [30], [10, 70, 30],
      [StJumping 10, StCentered 10, StJumping 30,
       StPageLoadError 30 (NetworkError ''offline''),
       StPageLoadError 30 (NetworkError ''offline''), StJumping 70, StCentered 70,
       StCentered 30])"
  by code_simp

text \<open>
  Claim C4.  For all pages \<open>p1 < p2\<close> whose elements are in the document, the element of
  \<open>p1\<close> precedes that of \<open>p2\<close>, whatever the order in which loads complete: every
  event keeps the order, in particular every insertion by the loader, and it holds after
  any events that follow a reset, which empties the document.
\<close>

theorem pages_stay_ordered:
  "(pagesOrdered (pagesDiv s) \<longrightarrow> pagesOrdered (pagesDiv (run s evs))) \<and>
   pagesOrdered (pagesDiv (run (resetAll s) evs))"
proof -
  have "pagesOrdered (pagesDiv (resetAll s))"
    by (simp add: resetAll_def Let_def setStatus_def disableZoom_def pagesOrdered_def)
  then show ?thesis using ordered_run by blast
qed

theorem pages_stay_ordered_witness:
  "pagesOrdered (pagesDiv (viewerState 10 [4])) \<and>
   pagesOrdered (pagesDiv (run (viewerState 10 [4]) (Click 0 # loads 4 @ loads 6 @ loads 2 @ loads 5 @ loads 3))) \<and>
   map elPage (pagesDiv (run (viewerState 10 [4]) (Click 0 # loads 4 @ loads 6 @ loads 2 @ loads 5 @ loads 3)))
     = [2, 3, 4, 5, 6]"
proof -
  have h: "pagesOrdered (pagesDiv (viewerState 10 [4]))"
    by (simp add: viewerState_def pagesOrdered_def)
  have e: "map elPage (pagesDiv (run (viewerState 10 [4]) (Click 0 # loads 4 @ loads 6 @ loads 2 @ loads 5 @ loads 3)))
     = [2, 3, 4, 5, 6]"
    by code_simp
  show ?thesis
    using h e pages_stay_ordered [of "viewerState 10 [4]"
        "Click 0 # loads 4 @ loads 6 @ loads 2 @ loads 5 @ loads 3"]
    by simp
qed

text \<open>
  Claim C5.  A second \<open>setCenterPage\<close> with the same center, right after the first,
  leaves the highlighted pages as they are, creates and removes no box (no page is
  painted again) and sends no request.
\<close>

theorem setCenter_idempotent:
  "highlightedPages (setCenterPage c fromClick (setCenterPage c fromClick s)) =
     highlightedPages (setCenterPage c fromClick s) \<and>
   overlayBoxes (setCenterPage c fromClick (setCenterPage c fromClick s)) =
     overlayBoxes (setCenterPage c fromClick s) \<and>
   nextNode (setCenterPage c fromClick (setCenterPage c fromClick s)) =
     nextNode (setCenterPage c fromClick s) \<and>
   fetchLog (setCenterPage c fromClick (setCenterPage c fromClick s)) =
     fetchLog (setCenterPage c fromClick s) \<and>
   pageCache (setCenterPage c fromClick (setCenterPage c fromClick s)) =
     pageCache (setCenterPage c fromClick s)"
proof -
  define s1 where "s1 = setCenterPage c fromClick s"
  have cen: "currentCenterPage s1 = Some c"
  proof -
    have "currentCenterPage (updateHighlightWindow (s\<lparr>currentCenterPage := Some c\<rparr>)) = Some c"
    proof (cases "currentDoc s")
      case None
      then show ?thesis by (simp add: updateHighlightWindow_def)
    next
      case (Some d)
      then have "windowDone d c (updateHighlightWindow (s\<lparr>currentCenterPage := Some c\<rparr>))"
        by (intro window_done) simp_all
      then show ?thesis by (rule windowDone_parts(2))
    qed
    then show ?thesis by (simp add: s1_def setCenterPage_def Let_def)
  qed
  have q: "quietStep s1 (updateHighlightWindow s1)"
  proof (cases "currentDoc s")
    case None
    then have "currentDoc s1 = None"
      by (simp add: s1_def setCenterPage_def Let_def updateHighlightWindow_def)
    then show ?thesis by (simp add: updateHighlightWindow_def)
  next
    case (Some d)
    then have "windowDone d c (updateHighlightWindow (s\<lparr>currentCenterPage := Some c\<rparr>))"
      by (intro window_done) simp_all
    then have "windowDone d c s1"
      by (simp add: s1_def setCenterPage_def Let_def windowDone_flags)
    then show ?thesis by (rule window_again)
  qed
  have "setCenterPage c fromClick s1 =
          (if fromClick
           then (updateHighlightWindow s1)\<lparr>programmaticScrollInProgress := True,
                  settleTimers := settleTimers (updateHighlightWindow s1) + 1\<rparr>
           else updateHighlightWindow s1)"
    by (simp add: setCenterPage_def Let_def center_again[OF cen])
  then show ?thesis
    unfolding s1_def[symmetric] using q by (simp add: quietStep_def)
qed

text \<open>
  Claim C6, as the code has it.  In a document of ten pages with match set \<open>{2, 4, 9}\<close>:
  centering page 4 gives the window 2..6 and, once their loads complete, highlights pages
  2 and 4, with page 9 neither requested nor loaded; centering page 9 then gives the
  window 7..10, clears and removes pages 2 and 4 at once and requests page 9, which is
  highlighted when its load completes.  No page is prefetched in either scroll direction:
  beyond the window there is no page 11, and pages 10 and 6 are not in the match set.
\<close>

theorem window_scenario:
  "windowStart 4 = 2 \<and> windowEnd \<lparr>doc_id = ''d'', pages = 10\<rparr> 4 = 6 \<and>
   windowView windowAt4 = ([4, 2], [2, 4], [(2, [(25, 50, 25, 25)]), (4, [(25, 50, 25, 25)])]) \<and>
   pageCache windowAt4 9 = None \<and>
   windowStart 9 = 7 \<and> windowEnd \<lparr>doc_id = ''d'', pages = 10\<rparr> 9 = 10 \<and>
   windowView (windowTo9 1) = ([], [2, 4, 9], [(2, []), (4, [])]) \<and>
   windowView (windowTo9 (- 1)) = ([], [2, 4, 9], [(2, []), (4, [])]) \<and>
   windowView (windowAt9 1) = ([9], [2, 4, 9], [(2, []), (4, []), (9, [(25, 50, 25, 25)])]) \<and>
   windowView (windowAt9 (- 1)) = ([9], [2, 4, 9], [(2, []), (4, []), (9, [(25, 50, 25, 25)])])"
  by code_simp

text \<open>
  Claim C6 as stated asks for a prefetch of page 10 (scroll direction +1) or of page 6
  (scroll direction -1): neither page is ever requested.
\<close>

theorem no_prefetch_counterexample:
  "10 \<notin> set (map snd (fetchLog (windowAt9 1))) \<and>
   6 \<notin> set (map snd (fetchLog (windowAt9 (- 1)))) \<and>
   pageLoadPromises (windowAt9 1) 10 = None \<and> pageLoadPromises (windowAt9 (- 1)) 6 = None \<and>
   pageCache (windowAt9 1) 10 = None \<and> pageCache (windowAt9 (- 1)) 6 = None"
  by code_simp




text \<open>
  Claim C8.  Painting a loaded page, whose element in the document is the one its page
  record refers to, adds one box for every token whose lowercase text is in the word set,
  in token order, each placed at the percentages of the token's bounding box, and no other
  box; when not appending, the boxes the page had are removed first.  (With an empty word
  set the function returns at once; the words are only ever emptied together with the
  removal of every box of the document, which is the last hypothesis.)
\<close>

theorem highlight_paints_hits:
  fixes s :: "('n::{times,minus,numeral}) state"
  assumes "pageCache s p = Some cache"
    and "queryPage p (pagesDiv s) = Some e" and "elId e = overlay cache"
    and "currentWords s \<noteq> [] \<or> overlayBoxes s (overlay cache) = []"
  shows
    "\<exists>new.
       overlayBoxes (highlightPageMatches p appending s) (overlay cache) =
         (if appending then overlayBoxes s (overlay cache) else []) @ new \<and>
       map boxGeometry new =
         map percentBox (filter (\<lambda>tok. wordHit (currentWords s) tok) (tokens cache)) \<and>
       distinct (map boxId new)"
proof (cases "currentWords s = []")
  case True
  then have "highlightPageMatches p appending s = s"
    using assms(1) by (simp add: highlightPageMatches_def)
  moreover have "overlayBoxes s (overlay cache) = []" using True assms(4) by simp
  moreover have "filter (\<lambda>tok. wordHit (currentWords s) tok) (tokens cache) = []"
    using True by (simp add: wordHit_def)
  ultimately show ?thesis by simp
next
  case False
  let ?hits = "filter (\<lambda>tok. wordHit (currentWords s) tok) (tokens cache)"
  let ?new = "map (\<lambda>(i, tok). mkBox i tok) (enumerate (nextNode s) ?hits)"
  have "overlayBoxes (highlightPageMatches p appending s) (overlay cache) =
          (if appending then overlayBoxes s (overlay cache) else []) @ ?new"
    using assms(1) False assms(2,3) by (rule highlight_boxes)
  moreover have "map boxGeometry ?new = map percentBox ?hits" by (rule geometry_frag)
  moreover have "distinct (map boxId ?new)" by (simp only: ids_frag distinct_upt)
  ultimately show ?thesis by blast
qed

theorem highlight_paints_hits_witness:
  "pageCache windowAt4 4 =
     Some \<lparr>tokens = dataTokens demoData, ptext = dataText demoData, overlay = 0\<rparr> \<and>
   queryPage 4 (pagesDiv windowAt4) = Some \<lparr>elId = 0, elPage = 4\<rparr> \<and>
   elId \<lparr>elId = 0, elPage = 4\<rparr> =
     overlay \<lparr>tokens = dataTokens demoData, ptext = dataText demoData, overlay = 0\<rparr> \<and>
   currentWords windowAt4 = [''foo''] \<and>
   map boxGeometry (overlayBoxes windowAt4 0) = [(25, 50, 25, 25)] \<and>
   map boxGeometry (overlayBoxes (highlightPageMatches 4 False windowAt4) 0) = [(25, 50, 25, 25)] \<and>
   map boxGeometry (overlayBoxes (highlightPageMatches 4 True windowAt4) 0) =
     [(25, 50, 25, 25), (25, 50, 25, 25)]"
proof -
  have h1: "pageCache windowAt4 4 =
     Some \<lparr>tokens = dataTokens demoData, ptext = dataText demoData, overlay = 0\<rparr>"
    by code_simp
  have h2: "queryPage 4 (pagesDiv windowAt4) = Some \<lparr>elId = 0, elPage = 4\<rparr>"
    by code_simp
  have h3: "elId \<lparr>elId = 0, elPage = 4\<rparr> =
     overlay \<lparr>tokens = dataTokens demoData, ptext = dataText demoData, overlay = 0\<rparr>"
    by simp
  have w: "currentWords windowAt4 = [''foo'']" by code_simp
  then have h4: "currentWords windowAt4 \<noteq> [] \<or>
      overlayBoxes windowAt4 (overlay \<lparr>tokens = dataTokens demoData, ptext = dataText demoData, overlay = 0\<rparr>) = []"
    by simp
  note t = highlight_paints_hits [OF h1 h2 h3 h4]
  have hits: "map percentBox (filter (\<lambda>tok. wordHit (currentWords windowAt4) tok)
      (tokens \<lparr>tokens = dataTokens demoData, ptext = dataText demoData, overlay = 0\<rparr>))
      = [(25, 50, 25, 25)]"
    unfolding w by code_simp
  have old: "map boxGeometry (overlayBoxes windowAt4 0) = [(25, 50, 25, 25)]"
    by code_simp
  have c1: "map boxGeometry (overlayBoxes (highlightPageMatches 4 False windowAt4) 0) = [(25, 50, 25, 25)]"
    using t [of False] hits by auto
  have c2: "map boxGeometry (overlayBoxes (highlightPageMatches 4 True windowAt4) 0) =
     [(25, 50, 25, 25), (25, 50, 25, 25)]"
    using t [of True] hits old by auto
  show ?thesis using h1 h2 h3 w old c1 c2 by simp
qed

text \<open>
  Claim C9.  For every input string, \<open>parseWords\<close> returns the words obtained by splitting
  on runs of commas, semicolons and white space, lowercased, with empty fragments dropped
  and duplicates removed keeping the first occurrence in input order (\<open>parseWordsSpec\<close>:
  \<open>fragments\<close> are the maximal runs of characters that are not separators, \<open>firstOccs\<close>
  keeps each word where it first occurs); an input of only separators yields the empty list.
\<close>

theorem parseWords_refines:
  "parseWords raw = parseWordsSpec raw \<and> (list_all isSep raw \<longrightarrow> parseWords raw = [])"
  by (simp add: parseWords_def parseWordsSpec_def firstIndexOnly_firstOccs
      splitRuns_fragments fragments_trim fragments_all_sep)

theorem parseWords_witness:
  "list_all isSep '' ,; '' \<and> parseWords '' ,; '' = [] \<and>
   parseWords '' Foo, bar;;foo  BAZ ,'' = [''foo'', ''bar'', ''baz'']"
  using parseWords_refines[of "'' ,; ''"]
  by code_simp

text \<open>
  Claim C10.  After \<open>resetAll\<close> the cache, the match set and the highlighted pages are
  empty, the center page, the document and the selected page are null, the results and the
  words are empty, the zoom scale is 1 and the observer is gone; the load tickets are left
  as they were.
\<close>

theorem resetAll_clears:
  "pageCache (resetAll s) = Map.empty \<and> matchPageSet (resetAll s) = {} \<and>
   highlightedPages (resetAll s) = [] \<and> currentCenterPage (resetAll s) = None \<and>
   currentDoc (resetAll s) = None \<and> currentSelectedPage (resetAll s) = None \<and>
   searchResults (resetAll s) = [] \<and> currentWords (resetAll s) = [] \<and>
   currentScale (resetAll s) = 1 \<and> pageObserver (resetAll s) = None \<and>
   pageLoadPromises (resetAll s) = pageLoadPromises s"
  by (simp add: resetAll_def Let_def setStatus_def disableZoom_def)

end
